theory Spec2Isabelle
  imports Main "HOL-Library.Sublist"
begin

section \<open>The scanning engine of the expression lexer (parser/lexer/lexer.go)\<close>

text \<open>
  A shallow embedding of the lexer's engine: the cursor over the input, the token emitter,
  the location calculator, the error reporter and the string and escape scanner.

  A Go \<open>string\<close> is a sequence of bytes, here a \<open>string\<close> (a list of 8-bit \<open>char\<close>).
  A \<open>rune\<close> is a code point, here an \<open>int\<close>; the sentinel \<open>eof\<close> is \<open>-1\<close>. Go's \<open>int\<close>
  (offsets, widths, counts) is an \<open>int\<close>: every value the engine computes is bounded by
  the length of the input, so no operation wraps around.

  The lexer is mutated in place by its methods; each method is a function from the lexer
  to the new lexer (with the value it returns, if any). A run-time panic of Go (a slice
  whose bounds are out of range) is the value \<open>None\<close>.
\<close>

subsection \<open>Runes of the standard library (unicode/utf8, strings)\<close>

type_synonym rune = int

definition eof :: rune where
  "eof = - 1"

definition RuneError :: rune where
  "RuneError = 65533"

text \<open>
  \<open>utf8.DecodeRuneInString\<close> of the Go standard library, after its source: the first byte
  selects the size of the encoding (2 below \<open>0xE0\<close>, 3 below \<open>0xF0\<close>, else 4) and the range
  its second byte must lie in; an empty string decodes to \<open>(RuneError, 0)\<close>, an invalid or
  truncated encoding to \<open>(RuneError, 1)\<close>. The masks and shifts of the library are written
  as \<open>mod\<close> and multiplication.
\<close>

definition acceptLo :: "nat \<Rightarrow> nat" where
  "acceptLo s0 = (if s0 = 224 then 160 else if s0 = 240 then 144 else 128)"

definition acceptHi :: "nat \<Rightarrow> nat" where
  "acceptHi s0 = (if s0 = 237 then 159 else if s0 = 244 then 143 else 191)"

definition contByte :: "nat \<Rightarrow> bool" where
  "contByte b = (128 \<le> b \<and> b \<le> 191)"

definition DecodeRuneInString :: "string \<Rightarrow> rune \<times> nat" where
  "DecodeRuneInString s =
     (case map of_char s of
        [] \<Rightarrow> (RuneError, 0)
      | s0 # t \<Rightarrow>
          if s0 < 128 then (int s0, 1)
          else if s0 < 194 \<or> 244 < s0 then (RuneError, 1)
          else if s0 < 224 then
            (case t of
               s1 # _ \<Rightarrow>
                 if s1 < acceptLo s0 \<or> acceptHi s0 < s1 then (RuneError, 1)
                 else (int ((s0 mod 32) * 64 + s1 mod 64), 2)
             | _ \<Rightarrow> (RuneError, 1))
          else if s0 < 240 then
            (case t of
               s1 # s2 # _ \<Rightarrow>
                 if s1 < acceptLo s0 \<or> acceptHi s0 < s1 then (RuneError, 1)
                 else if \<not> contByte s2 then (RuneError, 1)
                 else (int ((s0 mod 16) * 4096 + (s1 mod 64) * 64 + s2 mod 64), 3)
             | _ \<Rightarrow> (RuneError, 1))
          else
            (case t of
               s1 # s2 # s3 # _ \<Rightarrow>
                 if s1 < acceptLo s0 \<or> acceptHi s0 < s1 then (RuneError, 1)
                 else if \<not> contByte s2 then (RuneError, 1)
                 else if \<not> contByte s3 then (RuneError, 1)
                 else (int ((s0 mod 8) * 262144 + (s1 mod 64) * 4096
                             + (s2 mod 64) * 64 + s3 mod 64), 4)
             | _ \<Rightarrow> (RuneError, 1)))"

lemma DecodeRuneInString_width:
  "s \<noteq> [] \<Longrightarrow> 1 \<le> snd (DecodeRuneInString s) \<and> snd (DecodeRuneInString s) \<le> length s"
  by (cases s) (auto simp: DecodeRuneInString_def split: list.splits)

lemma DecodeRuneInString_nonneg: "0 \<le> fst (DecodeRuneInString s)"
  by (cases s) (auto simp: DecodeRuneInString_def RuneError_def split: list.splits)

text \<open>
  The conversion \<open>[]rune(s)\<close>, and the runes a \<open>range\<close> loop over a string yields: the string
  decoded from its beginning, one rune after the other.
\<close>

function runes :: "string \<Rightarrow> rune list" where
  "runes [] = []"
| "runes (c # cs) =
     fst (DecodeRuneInString (c # cs))
       # runes (drop (snd (DecodeRuneInString (c # cs))) (c # cs))"
  by pat_completeness auto
termination
proof (relation "measure length")
  show "wf (measure length)" by simp
next
  fix c :: char and cs :: string
  have "1 \<le> snd (DecodeRuneInString (c # cs))"
    using DecodeRuneInString_width [of "c # cs"] by simp
  then show "(drop (snd (DecodeRuneInString (c # cs))) (c # cs), c # cs) \<in> measure length"
    by simp
qed

text \<open>
  \<open>strings.ContainsRune(s, r)\<close>: whether the code point \<open>r\<close> is among the runes of \<open>s\<close>. The
  sentinel \<open>eof\<close> is no rune of any string.
\<close>

definition ContainsRune :: "string \<Rightarrow> rune \<Rightarrow> bool" where
  "ContainsRune s r = (r \<in> set (runes s))"

subsection \<open>Data model\<close>

record Location =
  Line :: int
  Column :: int

text \<open>
  Modelled from the spec: the type \<open>Kind\<close> and its constant \<open>EOF\<close> are declared in a file
  of the package that is not part of the sources at hand. The spec has \<open>Kind\<close> as an open
  enumeration with one end-of-input kind; every other kind is \<open>OtherKind\<close> of its name.
\<close>

datatype Kind = EOF | OtherKind string

record Token =
  Location :: Location
  Kind :: Kind
  Value :: string

text \<open>\<open>file.Error\<close>: a located message.\<close>

record Error =
  ErrLocation :: Location
  Message :: string

text \<open>
  The lexer. The field \<open>state\<close> of the source is neither read nor written by the engine
  and is left out. \<open>end\<close> and \<open>next\<close> are keywords of Isabelle: the field is \<open>end_pos\<close>, the
  method \<open>next_rune\<close>.
\<close>

record lexer =
  input :: string
  tokens :: "Token list"
  start :: int
  end_pos :: int
  width :: int
  err :: "Error option"

text \<open>The lexer \<open>Lex\<close> starts from: all offsets zero, no token, no error.\<close>

definition new_lexer :: "string \<Rightarrow> lexer" where
  "new_lexer s = \<lparr>input = s, tokens = [], start = 0, end_pos = 0, width = 0, err = None\<rparr>"

subsection \<open>Cursor\<close>

text \<open>
  \<open>next\<close>. The slice \<open>l.input[l.end:]\<close> panics when \<open>l.end\<close> is negative (it cannot exceed the
  length here).
\<close>

definition next_rune :: "lexer \<Rightarrow> (rune \<times> lexer) option" where
  "next_rune l =
     (if end_pos l \<ge> int (length (input l)) then Some (eof, l\<lparr>width := 0\<rparr>)
      else if end_pos l < 0 then None
      else
        (let (r, w) = DecodeRuneInString (drop (nat (end_pos l)) (input l))
         in Some (r, l\<lparr>width := int w, end_pos := end_pos l + int w\<rparr>)))"

definition backup :: "lexer \<Rightarrow> lexer" where
  "backup l = l\<lparr>end_pos := end_pos l - width l\<rparr>"

definition peek :: "lexer \<Rightarrow> (rune \<times> lexer) option" where
  "peek l = (case next_rune l of None \<Rightarrow> None | Some (r, l') \<Rightarrow> Some (r, backup l'))"

definition accept :: "string \<Rightarrow> lexer \<Rightarrow> (bool \<times> lexer) option" where
  "accept valid l =
     (case next_rune l of
        None \<Rightarrow> None
      | Some (r, l') \<Rightarrow>
          if ContainsRune valid r then Some (True, l') else Some (False, backup l'))"


lemma runes_nonneg: "r \<in> set (runes s) \<Longrightarrow> 0 \<le> r"
  by (induction s rule: runes.induct) (auto simp: DecodeRuneInString_nonneg)

lemma ContainsRune_eof [simp]: "\<not> ContainsRune valid eof"
  using runes_nonneg [of eof valid] by (auto simp: ContainsRune_def eof_def)

lemma next_rune_Some:
  assumes "next_rune l = Some (r, l')"
  shows "input l' = input l \<and> start l' = start l \<and> tokens l' = tokens l \<and> err l' = err l
         \<and> end_pos l' = end_pos l + width l' \<and> 0 \<le> width l'
         \<and> (r = eof \<longrightarrow> width l' = 0)
         \<and> (r \<noteq> eof \<longrightarrow> 0 \<le> end_pos l \<and> 1 \<le> width l'
               \<and> end_pos l' \<le> int (length (input l)))"
proof (cases "end_pos l \<ge> int (length (input l))")
  case True
  with assms show ?thesis by (auto simp: next_rune_def)
next
  case False
  with assms have nonneg: "0 \<le> end_pos l"
    by (auto simp: next_rune_def split: if_splits)
  define s where "s = drop (nat (end_pos l)) (input l)"
  from False nonneg have ne: "s \<noteq> []" by (simp add: s_def)
  from False nonneg have len: "int (length s) = int (length (input l)) - end_pos l"
    by (simp add: s_def)
  from assms False nonneg
  have r: "r = fst (DecodeRuneInString s)"
    and l': "l' = l\<lparr>width := int (snd (DecodeRuneInString s)),
                   end_pos := end_pos l + int (snd (DecodeRuneInString s))\<rparr>"
    by (auto simp: next_rune_def s_def split: prod.splits)
  from DecodeRuneInString_width [OF ne] len
  have w: "1 \<le> snd (DecodeRuneInString s)"
    "end_pos l + int (snd (DecodeRuneInString s)) \<le> int (length (input l))"
    by auto
  from r DecodeRuneInString_nonneg [of s] have "r \<noteq> eof" by (simp add: eof_def)
  with w nonneg show ?thesis by (simp add: l')
qed

lemma next_rune_total: "0 \<le> end_pos l \<Longrightarrow> \<exists>r l'. next_rune l = Some (r, l')"
  by (auto simp: next_rune_def split: prod.splits)

text \<open>\<open>acceptRun\<close>: the loop reads until a rune is not in the set, then backs up once.\<close>

function acceptRun :: "string \<Rightarrow> lexer \<Rightarrow> lexer option" where
  "acceptRun valid l =
     (case next_rune l of
        None \<Rightarrow> None
      | Some (r, l') \<Rightarrow>
          if ContainsRune valid r then acceptRun valid l' else Some (backup l'))"
  by pat_completeness auto
termination
proof (relation "measure (\<lambda>(valid, l). nat (int (length (input l)) - end_pos l))")
  show "wf (measure (\<lambda>(valid, l). nat (int (length (input l)) - end_pos l)))" by simp
next
  fix valid :: string and l l' :: lexer and x2 :: "rune \<times> lexer" and r :: rune
  assume nx: "next_rune l = Some x2" and x2: "(r, l') = x2" and c: "ContainsRune valid r"
  from c have "r \<noteq> eof" by auto
  with next_rune_Some [of l r l'] nx x2
  show "((valid, l'), (valid, l)) \<in> measure (\<lambda>(valid, l). nat (int (length (input l)) - end_pos l))"
    by auto
qed

declare acceptRun.simps [simp del]

text \<open>
  \<open>acceptWord\<close>: the loop over the runes of the word, with the offset saved on entry.
\<close>

fun acceptWord_loop :: "int \<Rightarrow> rune list \<Rightarrow> lexer \<Rightarrow> (bool \<times> lexer) option" where
  "acceptWord_loop pos [] l = Some (True, l)"
| "acceptWord_loop pos (ch # chs) l =
     (case next_rune l of
        None \<Rightarrow> None
      | Some (r, l') \<Rightarrow>
          if r \<noteq> ch then Some (False, l'\<lparr>end_pos := pos\<rparr>)
          else acceptWord_loop pos chs l')"

definition acceptWord :: "string \<Rightarrow> lexer \<Rightarrow> (bool \<times> lexer) option" where
  "acceptWord word l = acceptWord_loop (end_pos l) (runes word) l"

subsection \<open>Location calculator\<close>

text \<open>
  \<open>loc\<close>: the loop over \<open>[]rune(l.input)\<close> with its index \<open>i\<close>, the line and the column; it
  stops where the index is \<open>pos\<close>, or at the end of the runes.
\<close>

fun loc_loop :: "int \<Rightarrow> int \<Rightarrow> rune list \<Rightarrow> int \<Rightarrow> int \<Rightarrow> Location" where
  "loc_loop pos i [] line column = \<lparr>Line = line, Column = column\<rparr>"
| "loc_loop pos i (ch # chs) line column =
     (if i = pos then \<lparr>Line = line, Column = column\<rparr>
      else if ch = 10 then loc_loop pos (i + 1) chs (line + 1) 0
      else loc_loop pos (i + 1) chs line (column + 1))"

definition loc :: "lexer \<Rightarrow> int \<Rightarrow> Location" where
  "loc l pos = loc_loop pos 0 (runes (input l)) 1 0"

subsection \<open>Token emitter\<close>

text \<open>\<open>word\<close>: the slice \<open>l.input[l.start:l.end]\<close>, which panics unless its bounds are in range.\<close>

definition word :: "lexer \<Rightarrow> string option" where
  "word l =
     (if 0 \<le> start l \<and> start l \<le> end_pos l \<and> end_pos l \<le> int (length (input l))
      then Some (take (nat (end_pos l - start l)) (drop (nat (start l)) (input l)))
      else None)"

definition emitValue :: "Kind \<Rightarrow> string \<Rightarrow> lexer \<Rightarrow> lexer" where
  "emitValue t v l =
     l\<lparr>tokens := tokens l @ [\<lparr>Location = loc l (start l), Kind = t, Value = v\<rparr>],
       start := end_pos l\<rparr>"

definition emit :: "Kind \<Rightarrow> lexer \<Rightarrow> lexer option" where
  "emit t l = (case word l of None \<Rightarrow> None | Some v \<Rightarrow> Some (emitValue t v l))"

definition emitEOF :: "lexer \<Rightarrow> lexer" where
  "emitEOF l =
     l\<lparr>tokens := tokens l @ [\<lparr>Location = loc l (start l - 1), Kind = EOF, Value = []\<rparr>],
       start := end_pos l\<rparr>"

definition ignore :: "lexer \<Rightarrow> lexer" where
  "ignore l = l\<lparr>start := end_pos l\<rparr>"

subsection \<open>Error reporter\<close>

text \<open>
  \<open>error\<close>. The message is \<open>fmt.Sprintf(format, args...)\<close>; the model takes the formatted
  message. The method returns the state function \<open>nil\<close> every time, which the model leaves
  out.
\<close>

definition error :: "string \<Rightarrow> lexer \<Rightarrow> lexer" where
  "error msg l =
     (if err l = None
      then l\<lparr>err := Some \<lparr>ErrLocation = loc l (end_pos l - 1), Message = msg\<rparr>\<rparr>
      else l)"

subsection \<open>Escape and string scanner\<close>

definition lower :: "rune \<Rightarrow> rune" where
  "lower ch = or (97 - 65) ch"

definition digitVal :: "rune \<Rightarrow> int" where
  "digitVal ch =
     (if 48 \<le> ch \<and> ch \<le> 57 then ch - 48
      else if 97 \<le> lower ch \<and> lower ch \<le> 102 then lower ch - 97 + 10
      else 16)"

function scanDigits :: "rune \<Rightarrow> int \<Rightarrow> int \<Rightarrow> lexer \<Rightarrow> (rune \<times> lexer) option" where
  "scanDigits ch base n l =
     (if n > 0 \<and> digitVal ch < base then
        (case next_rune l of
           None \<Rightarrow> None
         | Some (ch', l') \<Rightarrow> scanDigits ch' base (n - 1) l')
      else if n > 0 then Some (ch, error ''invalid char escape'' l)
      else Some (ch, l))"
  by pat_completeness auto
termination
  by (relation "measure (\<lambda>(ch, base, n, l). nat n)") auto

declare scanDigits.simps [simp del]

text \<open>
  The case lists of the \<open>switch\<close> in \<open>scanEscape\<close>: the single-letter escapes with the
  backslash and the quote, and the octal digits. The cases are tried in this order.
\<close>

definition simpleEscape :: "rune \<Rightarrow> rune \<Rightarrow> bool" where
  "simpleEscape quote ch =
     (ch = 97 \<or> ch = 98 \<or> ch = 102 \<or> ch = 110 \<or> ch = 114 \<or> ch = 116 \<or> ch = 118
      \<or> ch = 92 \<or> ch = quote)"

definition octalStart :: "rune \<Rightarrow> bool" where
  "octalStart ch =
     (ch = 48 \<or> ch = 49 \<or> ch = 50 \<or> ch = 51 \<or> ch = 52 \<or> ch = 53 \<or> ch = 54 \<or> ch = 55)"

definition scanEscape :: "rune \<Rightarrow> lexer \<Rightarrow> (rune \<times> lexer) option" where
  "scanEscape quote l =
     (case next_rune l of
        None \<Rightarrow> None
      | Some (ch, l1) \<Rightarrow>
          if simpleEscape quote ch then next_rune l1
          else if octalStart ch then scanDigits ch 8 3 l1
          else if ch = 120 then
            (case next_rune l1 of None \<Rightarrow> None | Some (c, l2) \<Rightarrow> scanDigits c 16 2 l2)
          else if ch = 117 then
            (case next_rune l1 of None \<Rightarrow> None | Some (c, l2) \<Rightarrow> scanDigits c 16 4 l2)
          else if ch = 85 then
            (case next_rune l1 of None \<Rightarrow> None | Some (c, l2) \<Rightarrow> scanDigits c 16 8 l2)
          else Some (ch, error ''invalid char escape'' l1))"


text \<open>What the scanners leave of the cursor: the input is the same, and the offset has moved
  forward unless the last rune read was \<open>eof\<close>.\<close>

lemma error_frame [simp]:
  "input (error m l) = input l" "end_pos (error m l) = end_pos l"
  "start (error m l) = start l" "tokens (error m l) = tokens l" "width (error m l) = width l"
  by (simp_all add: error_def)

lemma scanDigits_adv:
  "scanDigits ch base n l = Some (ch', l') \<Longrightarrow>
     input l' = input l \<and> end_pos l \<le> end_pos l' \<and>
     ((ch' = ch \<and> end_pos l' = end_pos l) \<or> ch' = eof
       \<or> (end_pos l < end_pos l' \<and> end_pos l' \<le> int (length (input l))))"
proof (induction ch base n l rule: scanDigits.induct)
  case (1 ch base n l)
  show ?case
  proof (cases "n > 0 \<and> digitVal ch < base")
    case False
    with "1.prems" show ?thesis by (auto simp: scanDigits.simps [of ch base n l] split: if_splits)
  next
    case True
    with "1.prems" obtain c1 l1 where nx: "next_rune l = Some (c1, l1)"
      and sd: "scanDigits c1 base (n - 1) l1 = Some (ch', l')"
      by (auto simp: scanDigits.simps [of ch base n l] split: option.splits)
    from "1.IH" [OF True nx refl sd] next_rune_Some [OF nx]
    show ?thesis by auto
  qed
qed

lemma next_rune_adv:
  "next_rune l = Some (ch', l') \<Longrightarrow>
     input l' = input l \<and> end_pos l \<le> end_pos l' \<and>
     (ch' = eof \<or> (end_pos l < end_pos l' \<and> end_pos l' \<le> int (length (input l))))"
  using next_rune_Some [of l ch' l'] by auto

lemma next_scanDigits_adv:
  assumes "next_rune l = Some (c, l1)" and "scanDigits c base n l1 = Some (ch', l')"
  shows "input l' = input l \<and> end_pos l \<le> end_pos l' \<and>
     (ch' = eof \<or> (end_pos l < end_pos l' \<and> end_pos l' \<le> int (length (input l))))"
  using next_rune_adv [OF assms(1)] scanDigits_adv [OF assms(2)] by auto

lemma scanEscape_cases:
  assumes "scanEscape quote l = Some (ch', l')"
  obtains
    (simple) ch l1 where "next_rune l = Some (ch, l1)" "simpleEscape quote ch"
      "next_rune l1 = Some (ch', l')"
  | (octal) ch l1 where "next_rune l = Some (ch, l1)" "\<not> simpleEscape quote ch"
      "octalStart ch" "scanDigits ch 8 3 l1 = Some (ch', l')"
  | (hex) ch l1 c l2 where "next_rune l = Some (ch, l1)" "\<not> simpleEscape quote ch"
      "\<not> octalStart ch" "ch = 120 \<or> ch = 117 \<or> ch = 85" "next_rune l1 = Some (c, l2)"
      "scanDigits c 16 (if ch = 120 then 2 else if ch = 117 then 4 else 8) l2 = Some (ch', l')"
  | (other) l1 where "next_rune l = Some (ch', l1)" "\<not> simpleEscape quote ch'"
      "\<not> octalStart ch'" "ch' \<noteq> 120" "ch' \<noteq> 117" "ch' \<noteq> 85"
      "l' = error ''invalid char escape'' l1"
proof -
  from assms obtain ch l1 where n1: "next_rune l = Some (ch, l1)"
    by (cases "next_rune l") (auto simp: scanEscape_def)
  show thesis
  proof (cases "simpleEscape quote ch")
    case True
    with assms n1 have "next_rune l1 = Some (ch', l')" by (simp add: scanEscape_def)
    with n1 True show thesis by (rule simple)
  next
    case ns: False
    show thesis
    proof (cases "octalStart ch")
      case True
      with assms n1 ns have "scanDigits ch 8 3 l1 = Some (ch', l')"
        by (simp add: scanEscape_def)
      with n1 ns True show thesis by (rule octal)
    next
      case no: False
      show thesis
      proof (cases "ch = 120 \<or> ch = 117 \<or> ch = 85")
        case True
        with assms n1 ns no obtain c l2 where n2: "next_rune l1 = Some (c, l2)"
          by (cases "next_rune l1") (auto simp: scanEscape_def)
        with assms n1 ns no True
        have "scanDigits c 16 (if ch = 120 then 2 else if ch = 117 then 4 else 8) l2
                = Some (ch', l')"
          by (auto simp: scanEscape_def)
        with n1 ns no True n2 show thesis by (rule hex)
      next
        case False
        with assms n1 ns no have "ch' = ch" "l' = error ''invalid char escape'' l1"
          by (auto simp: scanEscape_def)
        with n1 ns no False show thesis by (intro other) auto
      qed
    qed
  qed
qed

lemma scanEscape_adv:
  assumes "scanEscape quote l = Some (ch', l')"
  shows "input l' = input l \<and> end_pos l \<le> end_pos l' \<and>
     (ch' = eof \<or> (end_pos l < end_pos l' \<and> end_pos l' \<le> int (length (input l))))"
  using assms
proof (cases rule: scanEscape_cases)
  case (simple ch l1)
  from next_rune_adv [OF simple(1)] next_rune_adv [OF simple(3)] show ?thesis by auto
next
  case (octal ch l1)
  from next_scanDigits_adv [OF octal(1) octal(4)] show ?thesis .
next
  case (hex ch l1 c l2)
  from next_rune_adv [OF hex(1)] next_scanDigits_adv [OF hex(5) hex(6)] show ?thesis by auto
next
  case (other l1)
  from next_rune_adv [OF other(1)] other(7) show ?thesis by auto
qed

text \<open>
  \<open>scanString\<close>: the rune after the opening quote is read, then the loop runs on the rune
  in hand \<open>ch\<close> and the count \<open>n\<close>.
\<close>

function scanString_loop :: "rune \<Rightarrow> rune \<Rightarrow> int \<Rightarrow> lexer \<Rightarrow> (int \<times> lexer) option" where
  "scanString_loop quote ch n l =
     (if ch \<noteq> quote then
        (if ch = 10 \<or> ch = eof then Some (n, error ''literal not terminated'' l)
         else
           (case (if ch = 92 then scanEscape quote l else next_rune l) of
              None \<Rightarrow> None
            | Some (ch', l') \<Rightarrow> scanString_loop quote ch' (n + 1) l'))
      else Some (n, l))"
  by pat_completeness auto
termination
proof (relation "measure (\<lambda>(quote, ch, n, l).
         nat (int (length (input l)) - end_pos l) + (if ch = eof then 0 else 1))")
  show "wf (measure (\<lambda>(quote, ch, n, l).
         nat (int (length (input l)) - end_pos l) + (if ch = eof then 0 else 1)))"
    by simp
next
  fix quote ch :: rune and n :: int and l l' :: lexer and x2 :: "rune \<times> lexer" and ch' :: rune
  assume ch: "\<not> (ch = 10 \<or> ch = eof)"
    and step: "(if ch = 92 then scanEscape quote l else next_rune l) = Some x2"
    and x2: "(ch', l') = x2"
  have "input l' = input l \<and> end_pos l \<le> end_pos l' \<and>
     (ch' = eof \<or> (end_pos l < end_pos l' \<and> end_pos l' \<le> int (length (input l))))"
  proof (cases "ch = 92")
    case True
    with step x2 show ?thesis using scanEscape_adv [of quote l ch' l'] by simp
  next
    case False
    with step x2 show ?thesis using next_rune_Some [of l ch' l'] by auto
  qed
  with ch show "((quote, ch', n + 1, l'), (quote, ch, n, l)) \<in> measure (\<lambda>(quote, ch, n, l).
         nat (int (length (input l)) - end_pos l) + (if ch = eof then 0 else 1))"
    by auto
qed

declare scanString_loop.simps [simp del]

definition scanString :: "rune \<Rightarrow> lexer \<Rightarrow> (int \<times> lexer) option" where
  "scanString quote l =
     (case next_rune l of None \<Rightarrow> None | Some (ch, l') \<Rightarrow> scanString_loop quote ch 0 l')"

section \<open>Properties\<close>

subsection \<open>The cursor and the runes to be read\<close>

text \<open>
  The runes still to be read: the input from the offset \<open>end\<close> on, decoded. The cursor reads
  them one by one, and returns \<open>eof\<close> when none is left.
\<close>

definition upcoming :: "lexer \<Rightarrow> rune list" where
  "upcoming l = runes (drop (nat (end_pos l)) (input l))"

lemma runes_Nil_iff [simp]: "runes s = [] \<longleftrightarrow> s = []"
  by (cases s) simp_all

lemma upcoming_Nil_iff:
  "0 \<le> end_pos l \<Longrightarrow> upcoming l = [] \<longleftrightarrow> int (length (input l)) \<le> end_pos l"
  by (auto simp: upcoming_def)

lemma next_rune_at_end:
  assumes "0 \<le> end_pos l" and "upcoming l = []"
  shows "next_rune l = Some (eof, l\<lparr>width := 0\<rparr>)"
  using assms by (simp add: upcoming_Nil_iff next_rune_def)

lemma next_rune_upcoming:
  assumes "0 \<le> end_pos l" and "upcoming l = r # rs"
  shows "\<exists>l'. next_rune l = Some (r, l') \<and> upcoming l' = rs \<and> 0 \<le> end_pos l'
           \<and> end_pos l < end_pos l' \<and> width l' = end_pos l' - end_pos l
           \<and> input l' = input l \<and> start l' = start l \<and> tokens l' = tokens l
           \<and> err l' = err l"
proof -
  define s where "s = drop (nat (end_pos l)) (input l)"
  from assms have ne: "s \<noteq> []" by (auto simp: upcoming_def s_def)
  then obtain c cs where s: "s = c # cs" by (cases s) auto
  define w where "w = snd (DecodeRuneInString s)"
  from assms(2) s have r: "r = fst (DecodeRuneInString s)" and rs: "rs = runes (drop w s)"
    by (simp_all add: upcoming_def s_def [symmetric] w_def)
  from ne assms(1) have lt: "end_pos l < int (length (input l))" by (simp add: s_def)
  define l' where "l' = l\<lparr>width := int w, end_pos := end_pos l + int w\<rparr>"
  from lt assms(1) r have nx: "next_rune l = Some (r, l')"
    by (simp add: next_rune_def s_def [symmetric] l'_def w_def split: prod.splits)
  from DecodeRuneInString_width [OF ne] have w1: "1 \<le> w" by (simp add: w_def)
  have "drop (nat (end_pos l')) (input l') = drop w s"
    using assms(1) by (simp add: l'_def s_def nat_add_distrib add.commute)
  with rs have "upcoming l' = rs" by (simp add: upcoming_def)
  with nx w1 assms(1) show ?thesis by (auto simp: l'_def)
qed

subsection \<open>Location calculator\<close>

text \<open>
  The runes the loop of \<open>loc\<close> passes before it stops at the index \<open>pos\<close>: the first \<open>pos\<close>
  runes of the input, or all of them when \<open>pos\<close> is negative or beyond the last rune.
\<close>

definition scanned :: "rune list \<Rightarrow> int \<Rightarrow> rune list" where
  "scanned cs pos = (if 0 \<le> pos then take (nat pos) cs else cs)"

lemma takeWhile_snoc_newline:
  "length (takeWhile (\<lambda>c. c \<noteq> (10::int)) (xs @ [c])) =
     (if 10 \<in> set xs then length (takeWhile (\<lambda>c. c \<noteq> 10) xs)
      else length xs + (if c \<noteq> 10 then 1 else 0))"
proof (cases "10 \<in> set xs")
  case True
  then show ?thesis by (simp add: takeWhile_append1)
next
  case False
  then have "\<And>x. x \<in> set xs \<Longrightarrow> x \<noteq> 10" by auto
  then show ?thesis using False by (simp add: takeWhile_append2)
qed

lemma loc_loop_closed:
  "loc_loop pos i cs line column =
     (let p = (if i \<le> pos then take (nat (pos - i)) cs else cs) in
      \<lparr>Line = line + int (count_list p 10),
       Column = (if 10 \<in> set p then int (length (takeWhile (\<lambda>c. c \<noteq> 10) (rev p)))
                 else column + int (length p))\<rparr>)"
proof (induction cs arbitrary: i line column)
  case Nil
  then show ?case by simp
next
  case (Cons c cs)
  show ?case
  proof (cases "i = pos")
    case True
    then show ?thesis by simp
  next
    case False
    define p' where "p' = (if i + 1 \<le> pos then take (nat (pos - (i + 1))) cs else cs)"
    have p: "(if i \<le> pos then take (nat (pos - i)) (c # cs) else c # cs) = c # p'"
    proof (cases "i \<le> pos")
      case True
      with False have "nat (pos - i) = Suc (nat (pos - (i + 1)))" by simp
      with True False show ?thesis by (simp add: p'_def)
    next
      case False
      then show ?thesis by (simp add: p'_def)
    qed
    show ?thesis
    proof (cases "c = 10")
      case True
      with False have "loc_loop pos i (c # cs) line column = loc_loop pos (i + 1) cs (line + 1) 0"
        by simp
      also have "\<dots> = \<lparr>Line = line + 1 + int (count_list p' 10),
           Column = (if 10 \<in> set p' then int (length (takeWhile (\<lambda>c. c \<noteq> 10) (rev p')))
                     else 0 + int (length p'))\<rparr>"
        unfolding Cons.IH p'_def Let_def ..
      finally show ?thesis
        unfolding p Let_def using True by (simp add: takeWhile_snoc_newline)
    next
      case c: False
      with False have "loc_loop pos i (c # cs) line column = loc_loop pos (i + 1) cs line (column + 1)"
        by simp
      also have "\<dots> = \<lparr>Line = line + int (count_list p' 10),
           Column = (if 10 \<in> set p' then int (length (takeWhile (\<lambda>c. c \<noteq> 10) (rev p')))
                     else column + 1 + int (length p'))\<rparr>"
        unfolding Cons.IH p'_def Let_def ..
      finally show ?thesis
        unfolding p Let_def using c by (simp add: takeWhile_snoc_newline)
    qed
  qed
qed

lemma DecodeRuneInString_ascii:
  "(of_char c :: nat) < 128 \<Longrightarrow> DecodeRuneInString (c # cs) = (int (of_char c), 1)"
  by (simp add: DecodeRuneInString_def)

text \<open>
  The loop of \<open>loc\<close> in closed form: the line is 1 plus the number of newlines among the runes
  it passes, and the column is the number of runes after the last of these newlines. The loop
  compares \<open>pos\<close> with its index among the decoded runes. In the input of the three runes
  \<open>a\<close>, newline, \<open>b\<close>, the index 2 is at line 2, column 0, and the index 0 at line 1,
  column 0.
\<close>

lemma loc_closed_form:
  "loc l pos =
     \<lparr>Line = 1 + int (count_list (scanned (runes (input l)) pos) 10),
      Column = int (length (takeWhile (\<lambda>c. c \<noteq> 10) (rev (scanned (runes (input l)) pos))))\<rparr>
   \<and> loc (new_lexer [CHR ''a'', CHR 0x0A, CHR ''b'']) 2 = \<lparr>Line = 2, Column = 0\<rparr>
   \<and> loc (new_lexer [CHR ''a'', CHR 0x0A, CHR ''b'']) 0 = \<lparr>Line = 1, Column = 0\<rparr>"
proof -
  have p: "(if 0 \<le> pos then take (nat (pos - 0)) cs else cs) = scanned cs pos" for cs :: "rune list"
    by (simp add: scanned_def)
  have nomem: "10 \<notin> set p \<Longrightarrow> takeWhile (\<lambda>c. c \<noteq> (10::int)) (rev p) = rev p" for p
    by (rule takeWhile_eq_all_conv [THEN iffD2]) auto
  have "loc l pos =
     \<lparr>Line = 1 + int (count_list (scanned (runes (input l)) pos) 10),
      Column = int (length (takeWhile (\<lambda>c. c \<noteq> 10) (rev (scanned (runes (input l)) pos))))\<rparr>"
    unfolding loc_def loc_loop_closed Let_def p by (simp add: nomem)
  moreover have "loc (new_lexer [CHR ''a'', CHR 0x0A, CHR ''b'']) 2 = \<lparr>Line = 2, Column = 0\<rparr>"
    by (simp add: loc_def new_lexer_def DecodeRuneInString_ascii)
  moreover have "loc (new_lexer [CHR ''a'', CHR 0x0A, CHR ''b'']) 0 = \<lparr>Line = 1, Column = 0\<rparr>"
    by (simp add: loc_def new_lexer_def DecodeRuneInString_ascii)
  ultimately show ?thesis by simp
qed

text \<open>
  The location of an offset into the input as the specification words it: the line is 1 plus
  the number of newlines before the offset, and the column the number of characters between
  the last of these newlines and the offset. The offsets of the cursor (\<open>start\<close>, \<open>end\<close>) are
  offsets in bytes, since \<open>next\<close> advances \<open>end\<close> by the width of the encoding.
\<close>

definition locationOf :: "string \<Rightarrow> int \<Rightarrow> Location" where
  "locationOf s offset =
     \<lparr>Line = 1 + int (count_list (runes (take (nat offset) s)) 10),
      Column = int (length (takeWhile (\<lambda>c. c \<noteq> 10) (rev (runes (take (nat offset) s)))))\<rparr>"

lemma runes_ascii:
  "(\<And>c. c \<in> set s \<Longrightarrow> (of_char c :: nat) < 128) \<Longrightarrow> runes s = map (\<lambda>c. int (of_char c)) s"
proof (induction s)
  case Nil
  then show ?case by simp
next
  case (Cons c cs)
  then have "(of_char c :: nat) < 128" by simp
  then have "DecodeRuneInString (c # cs) = (int (of_char c), 1)"
    by (rule DecodeRuneInString_ascii)
  with Cons show ?case by simp
qed

text \<open>
  Where every byte of the input is a character of its own (ASCII), the offset in bytes is
  the index among the runes, and \<open>loc\<close> is the location of the offset.
\<close>

lemma loc_ascii:
  assumes "\<And>c. c \<in> set (input l) \<Longrightarrow> (of_char c :: nat) < 128" and "0 \<le> pos"
  shows "loc l pos = locationOf (input l) pos"
proof -
  have "\<And>c. c \<in> set (take (nat pos) (input l)) \<Longrightarrow> (of_char c :: nat) < 128"
    using assms(1) by (meson in_set_takeD)
  then have "runes (take (nat pos) (input l)) = map (\<lambda>c. int (of_char c)) (take (nat pos) (input l))"
    by (rule runes_ascii)
  with runes_ascii [OF assms(1)] assms(2)
  have "scanned (runes (input l)) pos = runes (take (nat pos) (input l))"
    by (simp add: scanned_def take_map)
  with loc_closed_form [of l pos] show ?thesis by (simp add: locationOf_def)
qed

text \<open>
  C6. \<open>loc\<close> is to return the line and the column of an offset into the input: the line
  starts at 1 and grows with every newline before the offset, the column is reset to 0 after
  a newline and grows with every other character. On the input of the bytes \<open>C3 A9 0A 62\<close>
  (an e with acute accent in two bytes, a newline, \<open>b\<close>) the cursor reads the first two runes
  and stands at the offset 3, where the rune \<open>b\<close> begins, first on its line. \<open>loc\<close> compares
  this offset in bytes with the index among the three decoded runes, never meets it, passes
  \<open>b\<close> too and returns line 2, column 1, where the location of the offset is line 2,
  column 0.
\<close>

theorem loc_byte_offset_divergence:
  "next_rune (new_lexer [CHR 0xC3, CHR 0xA9, CHR 0x0A, CHR ''b''])
     = Some (233, \<lparr>input = [CHR 0xC3, CHR 0xA9, CHR 0x0A, CHR ''b''], tokens = [], start = 0,
                   end_pos = 2, width = 2, err = None\<rparr>)
   \<and> next_rune \<lparr>input = [CHR 0xC3, CHR 0xA9, CHR 0x0A, CHR ''b''], tokens = [], start = 0,
                 end_pos = 2, width = 2, err = None\<rparr>
     = Some (10, \<lparr>input = [CHR 0xC3, CHR 0xA9, CHR 0x0A, CHR ''b''], tokens = [], start = 0,
                  end_pos = 3, width = 1, err = None\<rparr>)
   \<and> next_rune \<lparr>input = [CHR 0xC3, CHR 0xA9, CHR 0x0A, CHR ''b''], tokens = [], start = 0,
                 end_pos = 3, width = 1, err = None\<rparr>
     = Some (98, \<lparr>input = [CHR 0xC3, CHR 0xA9, CHR 0x0A, CHR ''b''], tokens = [], start = 0,
                  end_pos = 4, width = 1, err = None\<rparr>)
   \<and> loc \<lparr>input = [CHR 0xC3, CHR 0xA9, CHR 0x0A, CHR ''b''], tokens = [], start = 0,
           end_pos = 3, width = 1, err = None\<rparr> 3 = \<lparr>Line = 2, Column = 1\<rparr>
   \<and> locationOf [CHR 0xC3, CHR 0xA9, CHR 0x0A, CHR ''b''] 3 = \<lparr>Line = 2, Column = 0\<rparr>"
  by code_simp

subsection \<open>Error reporter\<close>

lemma error_recorded: "err l = Some e \<Longrightarrow> error msg l = l"
  by (simp add: error_def)

lemma next_rune_err: "next_rune l = Some (r, l') \<Longrightarrow> err l' = err l"
  using next_rune_Some [of l r l'] by simp

lemma scanDigits_err_kept:
  "err l = Some e \<Longrightarrow> scanDigits ch base n l = Some (ch', l') \<Longrightarrow> err l' = Some e"
proof (induction ch base n l rule: scanDigits.induct)
  case (1 ch base n l)
  show ?case
  proof (cases "n > 0 \<and> digitVal ch < base")
    case False
    with "1.prems" show ?thesis
      by (auto simp: scanDigits.simps [of ch base n l] error_recorded split: if_splits)
  next
    case True
    with "1.prems" obtain c1 l1 where nx: "next_rune l = Some (c1, l1)"
      and sd: "scanDigits c1 base (n - 1) l1 = Some (ch', l')"
      by (auto simp: scanDigits.simps [of ch base n l] split: option.splits)
    from next_rune_err [OF nx] "1.prems"(1) have "err l1 = Some e" by simp
    from "1.IH" [OF True nx refl this sd] show ?thesis .
  qed
qed

lemma scanEscape_err_kept:
  assumes "err l = Some e" and "scanEscape quote l = Some (ch', l')"
  shows "err l' = Some e"
  using assms(2)
proof (cases rule: scanEscape_cases)
  case (simple ch l1)
  from next_rune_err [OF simple(1)] next_rune_err [OF simple(3)] assms(1) show ?thesis by simp
next
  case (octal ch l1)
  from next_rune_err [OF octal(1)] assms(1) have "err l1 = Some e" by simp
  from scanDigits_err_kept [OF this octal(4)] show ?thesis .
next
  case (hex ch l1 c l2)
  from next_rune_err [OF hex(1)] next_rune_err [OF hex(5)] assms(1) have "err l2 = Some e"
    by simp
  from scanDigits_err_kept [OF this hex(6)] show ?thesis .
next
  case (other l1)
  from next_rune_err [OF other(1)] assms(1) have "err l1 = Some e" by simp
  with other(7) show ?thesis by (simp add: error_recorded)
qed

lemma scanString_loop_err_kept:
  "err l = Some e \<Longrightarrow> scanString_loop quote ch n l = Some (m, l') \<Longrightarrow> err l' = Some e"
proof (induction quote ch n l rule: scanString_loop.induct)
  case (1 quote ch n l)
  show ?case
  proof (cases "ch \<noteq> quote \<and> \<not> (ch = 10 \<or> ch = eof)")
    case False
    with "1.prems" show ?thesis
      by (auto simp: scanString_loop.simps [of quote ch n l] error_recorded split: if_splits)
  next
    case True
    define step where "step = (if ch = 92 then scanEscape quote l else next_rune l)"
    from True "1.prems"(2)
    have "(case step of None \<Rightarrow> None
            | Some (c1, l1) \<Rightarrow> scanString_loop quote c1 (n + 1) l1) = Some (m, l')"
      unfolding step_def by (subst (asm) scanString_loop.simps) simp
    then obtain c1 l1 where "step = Some (c1, l1)"
        and rec: "scanString_loop quote c1 (n + 1) l1 = Some (m, l')"
      by (cases step) auto
    then have st: "(if ch = 92 then scanEscape quote l else next_rune l) = Some (c1, l1)"
      by (simp add: step_def)
    have "err l1 = Some e"
    proof (cases "ch = 92")
      case True
      with st have "scanEscape quote l = Some (c1, l1)" by simp
      from scanEscape_err_kept [OF "1.prems"(1) this] show ?thesis .
    next
      case False
      with st have "next_rune l = Some (c1, l1)" by simp
      from next_rune_err [OF this] "1.prems"(1) show ?thesis by simp
    qed
    from True have a: "ch \<noteq> quote" and b: "\<not> (ch = 10 \<or> ch = eof)" by auto
    from "1.IH" [OF a b st refl \<open>err l1 = Some e\<close> rec] show ?thesis .
  qed
qed

lemma scanString_err_kept:
  assumes "err l = Some e" and "scanString quote l = Some (m, l')"
  shows "err l' = Some e"
proof -
  from assms(2) obtain ch l1 where nx: "next_rune l = Some (ch, l1)"
    and lp: "scanString_loop quote ch 0 l1 = Some (m, l')"
    by (auto simp: scanString_def split: option.splits)
  from next_rune_err [OF nx] assms(1) have "err l1 = Some e" by simp
  from scanString_loop_err_kept [OF this lp] show ?thesis .
qed

text \<open>
  C1. The first error wins. \<open>error\<close> records a diagnostic, located by \<open>loc\<close> at the offset
  \<open>end - 1\<close>, only when no error is recorded yet; when one is recorded the call changes
  nothing. A second call after a first is therefore without effect, and a recorded error
  stays as it is through the cursor and the scanners: of two errors in sequence, only the
  first is ever surfaced.
\<close>

theorem first_error_wins:
  "(err l = None \<longrightarrow>
      error msg l = l\<lparr>err := Some \<lparr>ErrLocation = loc l (end_pos l - 1), Message = msg\<rparr>\<rparr>)
   \<and> (err l \<noteq> None \<longrightarrow> error msg l = l)
   \<and> error msg' (error msg l) = error msg l
   \<and> (\<forall>e r l'. err l = Some e \<longrightarrow> next_rune l = Some (r, l') \<longrightarrow> err l' = Some e)
   \<and> (\<forall>e ch base n r l'. err l = Some e \<longrightarrow> scanDigits ch base n l = Some (r, l')
         \<longrightarrow> err l' = Some e)
   \<and> (\<forall>e quote r l'. err l = Some e \<longrightarrow> scanEscape quote l = Some (r, l')
         \<longrightarrow> err l' = Some e)
   \<and> (\<forall>e quote n l'. err l = Some e \<longrightarrow> scanString quote l = Some (n, l')
         \<longrightarrow> err l' = Some e)"
proof -
  have "error msg' (error msg l) = error msg l" by (simp add: error_def)
  moreover have "err l = None \<longrightarrow>
      error msg l = l\<lparr>err := Some \<lparr>ErrLocation = loc l (end_pos l - 1), Message = msg\<rparr>\<rparr>"
    by (simp add: error_def)
  moreover have "err l \<noteq> None \<longrightarrow> error msg l = l" by (simp add: error_def)
  ultimately show ?thesis
    using scanDigits_err_kept [of l] scanEscape_err_kept [of l] scanString_err_kept [of l]
      next_rune_err [of l]
    by (intro conjI allI impI) (blast | simp)+
qed

text \<open>
  The input \<open>\\q\<close> after an opening quote: the escape is invalid, then the literal is not
  terminated. The error recorded is the first one.
\<close>

lemma scanString_two_errors:
  "scanString 34 (new_lexer [CHR 0x5C, CHR ''q'']) =
     Some (2, \<lparr>input = [CHR 0x5C, CHR ''q''], tokens = [], start = 0, end_pos = 2, width = 0,
               err = Some \<lparr>ErrLocation = \<lparr>Line = 1, Column = 1\<rparr>,
                            Message = ''invalid char escape''\<rparr>\<rparr>)"
  by code_simp

theorem first_error_wins_witness:
  "scanString 34 (new_lexer [CHR 0x5C, CHR ''q'']) =
     Some (2, \<lparr>input = [CHR 0x5C, CHR ''q''], tokens = [], start = 0, end_pos = 2, width = 0,
               err = Some \<lparr>ErrLocation = \<lparr>Line = 1, Column = 1\<rparr>,
                            Message = ''invalid char escape''\<rparr>\<rparr>)
   \<and> error ''literal not terminated''
        \<lparr>input = [CHR 0x5C, CHR ''q''], tokens = [], start = 0, end_pos = 2, width = 0,
         err = Some \<lparr>ErrLocation = \<lparr>Line = 1, Column = 1\<rparr>,
                      Message = ''invalid char escape''\<rparr>\<rparr>
      = \<lparr>input = [CHR 0x5C, CHR ''q''], tokens = [], start = 0, end_pos = 2, width = 0,
         err = Some \<lparr>ErrLocation = \<lparr>Line = 1, Column = 1\<rparr>,
                      Message = ''invalid char escape''\<rparr>\<rparr>
   \<and> error ''invalid char escape''
        \<lparr>input = [CHR 0x5C, CHR ''q''], tokens = [], start = 0, end_pos = 2, width = 1,
         err = None\<rparr>
      = \<lparr>input = [CHR 0x5C, CHR ''q''], tokens = [], start = 0, end_pos = 2, width = 1,
         err = Some \<lparr>ErrLocation = \<lparr>Line = 1, Column = 1\<rparr>,
                      Message = ''invalid char escape''\<rparr>\<rparr>"
proof -
  let ?L = "\<lparr>input = [CHR 0x5C, CHR ''q''], tokens = [], start = 0, end_pos = 2, width = 0,
         err = Some \<lparr>ErrLocation = \<lparr>Line = 1, Column = 1\<rparr>,
                      Message = ''invalid char escape''\<rparr>\<rparr>"
  let ?K = "\<lparr>input = [CHR 0x5C, CHR ''q''], tokens = [], start = 0, end_pos = 2, width = 1,
         err = None\<rparr>"
  have 1: "error ''literal not terminated'' ?L = ?L"
    using first_error_wins [of ?L "''literal not terminated''"] by simp
  have "loc ?K 1 = \<lparr>Line = 1, Column = 1\<rparr>"
    by (simp add: loc_def DecodeRuneInString_ascii)
  then have 2: "error ''invalid char escape'' ?K
      = \<lparr>input = [CHR 0x5C, CHR ''q''], tokens = [], start = 0, end_pos = 2, width = 1,
         err = Some \<lparr>ErrLocation = \<lparr>Line = 1, Column = 1\<rparr>,
                      Message = ''invalid char escape''\<rparr>\<rparr>"
    using first_error_wins [of ?K "''invalid char escape''"] by simp
  from 1 2 scanString_two_errors show ?thesis by simp
qed

subsection \<open>The end-of-input token\<close>

text \<open>
  C2 (amended). \<open>emitEOF\<close> appends a token of the kind \<open>EOF\<close> with an empty value, whose
  location is computed by \<open>loc\<close> from the offset \<open>start - 1\<close>, and then sets \<open>start\<close> to \<open>end\<close>.
  Where \<open>start\<close> equals \<open>end\<close> when it is called, this is the location of \<open>end - 1\<close>.
\<close>

theorem emitEOF_location:
  "tokens (emitEOF l) = tokens l @ [\<lparr>Location = loc l (start l - 1), Kind = EOF, Value = []\<rparr>]
   \<and> start (emitEOF l) = end_pos l \<and> end_pos (emitEOF l) = end_pos l
   \<and> width (emitEOF l) = width l \<and> input (emitEOF l) = input l \<and> err (emitEOF l) = err l
   \<and> (start l = end_pos l \<longrightarrow>
         Location (last (tokens (emitEOF l))) = loc l (end_pos l - 1))"
  by (simp add: emitEOF_def)

theorem emitEOF_location_witness:
  "tokens (emitEOF (new_lexer [])) = [\<lparr>Location = \<lparr>Line = 1, Column = 0\<rparr>, Kind = EOF, Value = []\<rparr>]
   \<and> Location (last (tokens (emitEOF (new_lexer [])))) = loc (new_lexer []) (end_pos (new_lexer []) - 1)"
proof -
  have "start (new_lexer []) = end_pos (new_lexer [])" by (simp add: new_lexer_def)
  with emitEOF_location [of "new_lexer []"]
  have "Location (last (tokens (emitEOF (new_lexer [])))) = loc (new_lexer []) (end_pos (new_lexer []) - 1)"
    by blast
  moreover have "tokens (emitEOF (new_lexer [])) = [\<lparr>Location = \<lparr>Line = 1, Column = 0\<rparr>, Kind = EOF, Value = []\<rparr>]"
    by (simp add: emitEOF_def new_lexer_def loc_def)
  ultimately show ?thesis by simp
qed

text \<open>
  After two runes of the input \<open>ab\<close> are read, with nothing emitted, \<open>start\<close> is 0 and \<open>end\<close>
  is 2: the location of the token of \<open>emitEOF\<close> is that of the offset \<open>start - 1\<close>, line 1,
  column 2, and not that of the offset \<open>end - 1\<close>, line 1, column 1.
\<close>

theorem emitEOF_end_counterexample:
  "next_rune (new_lexer ''ab'')
     = Some (97, \<lparr>input = ''ab'', tokens = [], start = 0, end_pos = 1, width = 1, err = None\<rparr>)
   \<and> next_rune \<lparr>input = ''ab'', tokens = [], start = 0, end_pos = 1, width = 1, err = None\<rparr>
     = Some (98, \<lparr>input = ''ab'', tokens = [], start = 0, end_pos = 2, width = 1, err = None\<rparr>)
   \<and> tokens (emitEOF \<lparr>input = ''ab'', tokens = [], start = 0, end_pos = 2, width = 1, err = None\<rparr>)
     = [\<lparr>Location = \<lparr>Line = 1, Column = 2\<rparr>, Kind = EOF, Value = []\<rparr>]
   \<and> loc \<lparr>input = ''ab'', tokens = [], start = 0, end_pos = 2, width = 1, err = None\<rparr> (2 - 1)
     = \<lparr>Line = 1, Column = 1\<rparr>"
  by (simp add: next_rune_def new_lexer_def emitEOF_def loc_def DecodeRuneInString_ascii)

subsection \<open>Widths of the runes to be read\<close>

text \<open>
  The bytes still to be read, and the widths of the runes they decode to (the number of
  bytes \<open>next\<close> advances by for each of them).
\<close>

definition pending :: "lexer \<Rightarrow> string" where
  "pending l = drop (nat (end_pos l)) (input l)"

function widths :: "string \<Rightarrow> nat list" where
  "widths [] = []"
| "widths (c # cs) =
     snd (DecodeRuneInString (c # cs))
       # widths (drop (snd (DecodeRuneInString (c # cs))) (c # cs))"
  by pat_completeness auto
termination
proof (relation "measure length")
  show "wf (measure length)" by simp
next
  fix c :: char and cs :: string
  have "1 \<le> snd (DecodeRuneInString (c # cs))"
    using DecodeRuneInString_width [of "c # cs"] by simp
  then show "(drop (snd (DecodeRuneInString (c # cs))) (c # cs), c # cs) \<in> measure length"
    by simp
qed

lemma length_widths: "length (widths s) = length (runes s)"
  by (induction s rule: runes.induct) simp_all

lemma widths_pos: "w \<in> set (widths s) \<Longrightarrow> 1 \<le> w"
proof (induction s rule: widths.induct)
  case 1
  then show ?case by simp
next
  case (2 c cs)
  from DecodeRuneInString_width [of "c # cs"] have "1 \<le> snd (DecodeRuneInString (c # cs))"
    by simp
  with 2 show ?case by auto
qed

lemma upcoming_pending: "upcoming l = runes (pending l)"
  by (simp add: upcoming_def pending_def)

text \<open>One step of the cursor, on the runes to be read and their widths.\<close>

lemma next_rune_step:
  assumes "0 \<le> end_pos l" and "upcoming l = r # rs"
  obtains l' w ws where "next_rune l = Some (r, l')" "upcoming l' = rs"
    "widths (pending l) = w # ws" "widths (pending l') = ws" "1 \<le> w"
    "width l' = int w" "end_pos l' = end_pos l + int w"
    "end_pos l' \<le> int (length (input l))"
    "input l' = input l" "start l' = start l" "tokens l' = tokens l" "err l' = err l"
proof -
  define s where "s = pending l"
  from assms have ne: "s \<noteq> []" by (auto simp: upcoming_pending s_def)
  then obtain c cs where s: "s = c # cs" by (cases s) auto
  define w where "w = snd (DecodeRuneInString s)"
  from assms(2) s have r: "r = fst (DecodeRuneInString s)" and rs: "rs = runes (drop w s)"
    by (simp_all add: upcoming_pending s_def [symmetric] w_def)
  from s have ws: "widths s = w # widths (drop w s)" by (simp add: w_def)
  from ne assms(1) have lt: "end_pos l < int (length (input l))" by (simp add: s_def pending_def)
  define l' where "l' = l\<lparr>width := int w, end_pos := end_pos l + int w\<rparr>"
  from lt assms(1) r have nx: "next_rune l = Some (r, l')"
    by (simp add: next_rune_def s_def [symmetric, unfolded pending_def] l'_def w_def 
        split: prod.splits)
  from DecodeRuneInString_width [OF ne] have w1: "1 \<le> w" and w2: "w \<le> length s"
    by (simp_all add: w_def)
  have p': "pending l' = drop w s"
    using assms(1) by (simp add: l'_def s_def pending_def nat_add_distrib add.commute)
  from w2 assms(1) lt have le: "end_pos l' \<le> int (length (input l))"
    by (simp add: l'_def s_def pending_def)
  show thesis
  proof (rule that [of l' w "widths (drop w s)"])
    show "next_rune l = Some (r, l')" by (fact nx)
    show "upcoming l' = rs" by (simp add: upcoming_pending p' rs)
    show "widths (pending l) = w # widths (drop w s)" using ws by (simp add: s_def)
    show "widths (pending l') = widths (drop w s)" by (simp add: p')
    show "1 \<le> w" by (fact w1)
    show "end_pos l' \<le> int (length (input l))" by (fact le)
  qed (simp_all add: l'_def)
qed

lemma upcoming_same:
  "input l' = input l \<Longrightarrow> end_pos l' = end_pos l \<Longrightarrow> upcoming l' = upcoming l"
  by (simp add: upcoming_def)

lemma pending_same:
  "input l' = input l \<Longrightarrow> end_pos l' = end_pos l \<Longrightarrow> pending l' = pending l"
  by (simp add: pending_def)

subsection \<open>Accepting runes of a set\<close>

text \<open>The fields no cursor operation touches.\<close>

definition same_frame :: "lexer \<Rightarrow> lexer \<Rightarrow> bool" where
  "same_frame l l' =
     (input l' = input l \<and> start l' = start l \<and> tokens l' = tokens l \<and> err l' = err l)"

lemma accept_spec:
  assumes "0 \<le> end_pos l"
  shows "\<exists>b l'. accept valid l = Some (b, l') \<and> same_frame l l'
           \<and> b = (case upcoming l of [] \<Rightarrow> False | r # rs \<Rightarrow> ContainsRune valid r)
           \<and> (if b then upcoming l' = tl (upcoming l)
                 \<and> end_pos l' = end_pos l + int (hd (widths (pending l)))
               else end_pos l' = end_pos l \<and> upcoming l' = upcoming l)"
proof (cases "upcoming l")
  case Nil
  from next_rune_at_end [OF assms Nil] Nil show ?thesis
    by (auto simp: accept_def backup_def same_frame_def upcoming_def)
next
  case (Cons r rs)
  from assms Cons obtain l1 w ws where st: "next_rune l = Some (r, l1)" "upcoming l1 = rs"
    "widths (pending l) = w # ws" "width l1 = int w" "end_pos l1 = end_pos l + int w"
    "input l1 = input l" "start l1 = start l" "tokens l1 = tokens l" "err l1 = err l"
    by (rule next_rune_step)
  show ?thesis
  proof (cases "ContainsRune valid r")
    case True
    with st Cons show ?thesis by (auto simp: accept_def same_frame_def)
  next
    case False
    from st have "upcoming (backup l1) = upcoming l"
      by (intro upcoming_same) (simp_all add: backup_def)
    with False st Cons show ?thesis by (auto simp: accept_def same_frame_def backup_def)
  qed
qed

lemma acceptRun_spec:
  "0 \<le> end_pos l \<Longrightarrow>
   \<exists>l'. acceptRun valid l = Some l' \<and> same_frame l l'
     \<and> upcoming l' = dropWhile (ContainsRune valid) (upcoming l)
     \<and> end_pos l' = end_pos l
          + int (sum_list (take (length (takeWhile (ContainsRune valid) (upcoming l)))
                             (widths (pending l))))"
proof (induction valid l rule: acceptRun.induct)
  case (1 valid l)
  show ?case
  proof (cases "upcoming l")
    case Nil
    from next_rune_at_end [OF "1.prems" Nil] Nil show ?thesis
      by (simp add: acceptRun.simps [of valid l] backup_def same_frame_def upcoming_def)
  next
    case (Cons r rs)
    from "1.prems" Cons obtain l1 w ws where st: "next_rune l = Some (r, l1)" "upcoming l1 = rs"
      "widths (pending l) = w # ws" "widths (pending l1) = ws"
      "width l1 = int w" "end_pos l1 = end_pos l + int w"
      "input l1 = input l" "start l1 = start l" "tokens l1 = tokens l" "err l1 = err l"
      by (rule next_rune_step)
    show ?thesis
    proof (cases "ContainsRune valid r")
      case True
      from st "1.prems" have "0 \<le> end_pos l1" by simp
      from "1.IH" [OF st(1) refl True this] obtain l' where
        IH: "acceptRun valid l1 = Some l'" "same_frame l1 l'"
          "upcoming l' = dropWhile (ContainsRune valid) (upcoming l1)"
          "end_pos l' = end_pos l1
             + int (sum_list (take (length (takeWhile (ContainsRune valid) (upcoming l1)))
                                (widths (pending l1))))"
        by blast
      from True st IH(1) have "acceptRun valid l = Some l'"
        by (simp add: acceptRun.simps [of valid l])
      moreover from IH(2) st have "same_frame l l'" by (simp add: same_frame_def)
      moreover from IH(3) st Cons True
      have "upcoming l' = dropWhile (ContainsRune valid) (upcoming l)" by simp
      moreover from IH(4) st Cons True
      have "end_pos l' = end_pos l
          + int (sum_list (take (length (takeWhile (ContainsRune valid) (upcoming l)))
                             (widths (pending l))))" by simp
      ultimately show ?thesis by blast
    next
      case False
      from st have "upcoming (backup l1) = upcoming l"
        by (intro upcoming_same) (simp_all add: backup_def)
      with False st Cons show ?thesis
        by (simp add: acceptRun.simps [of valid l] same_frame_def backup_def)
    qed
  qed
qed

text \<open>
  C8. Rollback. From every lexer whose offset \<open>end\<close> is not negative, \<open>accept\<close> returns whether the
  next rune is in the set; when it is not (or the input has ended), \<open>end\<close> is what it was
  before the call, and when it is, \<open>end\<close> has advanced by the width of that rune.
  \<open>acceptRun\<close> consumes the runes as long as they are in the set and, after its one \<open>backup\<close>,
  leaves \<open>end\<close> just before the first rune that is not (or at the end of the input): \<open>end\<close>
  has advanced by the widths of the runes accepted, and by nothing when the first rune is
  rejected.
\<close>

theorem accept_rollback:
  assumes "0 \<le> end_pos l"
  shows "(\<exists>b l'. accept valid l = Some (b, l') \<and> same_frame l l'
           \<and> b = (case upcoming l of [] \<Rightarrow> False | r # rs \<Rightarrow> ContainsRune valid r)
           \<and> (if b then upcoming l' = tl (upcoming l)
                 \<and> end_pos l' = end_pos l + int (hd (widths (pending l)))
               else end_pos l' = end_pos l \<and> upcoming l' = upcoming l))
       \<and> (\<exists>l'. acceptRun valid l = Some l' \<and> same_frame l l'
           \<and> upcoming l' = dropWhile (ContainsRune valid) (upcoming l)
           \<and> end_pos l' = end_pos l
                + int (sum_list (take (length (takeWhile (ContainsRune valid) (upcoming l)))
                                   (widths (pending l)))))"
  using accept_spec [OF assms] acceptRun_spec [OF assms] by blast

lemma accept_example:
  "accept ''xy'' (new_lexer ''ab'')
     = Some (False, \<lparr>input = ''ab'', tokens = [], start = 0, end_pos = 0, width = 1, err = None\<rparr>)"
  by code_simp

lemma acceptRun_example:
  "acceptRun ''ab'' (new_lexer ''abca'')
     = Some \<lparr>input = ''abca'', tokens = [], start = 0, end_pos = 2, width = 1, err = None\<rparr>"
  by code_simp

theorem accept_rollback_witness:
  "0 \<le> end_pos (new_lexer ''abca'')
   \<and> upcoming \<lparr>input = ''abca'', tokens = [], start = 0, end_pos = 2, width = 1, err = None\<rparr>
       = dropWhile (ContainsRune ''ab'') (upcoming (new_lexer ''abca''))
   \<and> acceptRun ''ab'' (new_lexer ''abca'')
       = Some \<lparr>input = ''abca'', tokens = [], start = 0, end_pos = 2, width = 1, err = None\<rparr>
   \<and> upcoming \<lparr>input = ''abca'', tokens = [], start = 0, end_pos = 2, width = 1, err = None\<rparr>
       = [99, 97]
   \<and> accept ''xy'' (new_lexer ''ab'')
     = Some (False, \<lparr>input = ''ab'', tokens = [], start = 0, end_pos = 0, width = 1, err = None\<rparr>)"
proof -
  have h: "0 \<le> end_pos (new_lexer ''abca'')" by (simp add: new_lexer_def)
  from accept_rollback [OF h, of "''ab''"] acceptRun_example
  have "upcoming \<lparr>input = ''abca'', tokens = [], start = 0, end_pos = 2, width = 1, err = None\<rparr>
       = dropWhile (ContainsRune ''ab'') (upcoming (new_lexer ''abca''))"
    by auto
  moreover have "upcoming \<lparr>input = ''abca'', tokens = [], start = 0, end_pos = 2, width = 1, err = None\<rparr>
       = [99, 97]"
    by (simp add: upcoming_def DecodeRuneInString_ascii)
  ultimately show ?thesis using h accept_example acceptRun_example by simp
qed

subsection \<open>The invariant of the offsets\<close>

definition lexer_inv :: "lexer \<Rightarrow> bool" where
  "lexer_inv l = (0 \<le> start l \<and> start l \<le> end_pos l \<and> end_pos l \<le> int (length (input l)))"

lemma next_rune_inv:
  assumes "lexer_inv l"
  shows "\<exists>r l'. next_rune l = Some (r, l') \<and> lexer_inv l' \<and> lexer_inv (backup l')
           \<and> end_pos (backup l') = end_pos l"
proof -
  from assms have "0 \<le> end_pos l" by (simp add: lexer_inv_def)
  from next_rune_total [OF this] obtain r l' where nx: "next_rune l = Some (r, l')" by blast
  from next_rune_Some [OF nx] assms
  have "lexer_inv l' \<and> lexer_inv (backup l') \<and> end_pos (backup l') = end_pos l"
    by (cases "r = eof") (auto simp: lexer_inv_def backup_def)
  with nx show ?thesis by blast
qed

lemma acceptRun_inv:
  "lexer_inv l \<Longrightarrow> \<exists>l'. acceptRun valid l = Some l' \<and> lexer_inv l'"
proof (induction valid l rule: acceptRun.induct)
  case (1 valid l)
  from next_rune_inv [OF "1.prems"] obtain r l1 where nx: "next_rune l = Some (r, l1)"
    and inv: "lexer_inv l1" "lexer_inv (backup l1)" by blast
  show ?case
  proof (cases "ContainsRune valid r")
    case True
    from "1.IH" [OF nx refl True inv(1)] nx True show ?thesis
      by (simp add: acceptRun.simps [of valid l])
  next
    case False
    with nx inv(2) show ?thesis by (simp add: acceptRun.simps [of valid l])
  qed
qed

lemma acceptWord_loop_inv:
  "lexer_inv l \<Longrightarrow> start l \<le> pos \<Longrightarrow> pos \<le> end_pos l \<Longrightarrow>
     \<exists>b l'. acceptWord_loop pos ws l = Some (b, l') \<and> lexer_inv l'"
proof (induction ws arbitrary: l)
  case Nil
  then show ?case by auto
next
  case (Cons ch chs)
  from next_rune_inv [OF Cons.prems(1)] obtain r l1 where nx: "next_rune l = Some (r, l1)"
    and inv: "lexer_inv l1" by blast
  from next_rune_Some [OF nx] have fr: "start l1 = start l" "end_pos l \<le> end_pos l1"
    "input l1 = input l" by auto
  show ?case
  proof (cases "r = ch")
    case True
    from fr Cons.prems have "start l1 \<le> pos" "pos \<le> end_pos l1" by auto
    from Cons.IH [OF inv this] nx True show ?thesis by simp
  next
    case False
    from inv fr Cons.prems have "lexer_inv (l1\<lparr>end_pos := pos\<rparr>)"
      by (auto simp: lexer_inv_def)
    with nx False show ?thesis by auto
  qed
qed

text \<open>
  C9 (amended). From every lexer that satisfies the invariant \<open>0 \<le> start \<le> end \<le> len(input)\<close>,
  the operations \<open>next\<close>, \<open>peek\<close>, \<open>accept\<close>, \<open>acceptRun\<close>, \<open>acceptWord\<close>, \<open>emit\<close>, \<open>emitValue\<close>,
  \<open>ignore\<close> and \<open>emitEOF\<close> return (none of them panics), and the lexer they leave satisfies
  the invariant. \<open>backup\<close> directly after a \<open>next\<close> restores the offset \<open>end\<close> of before that \<open>next\<close>
  and keeps the invariant; in general \<open>backup\<close> keeps it exactly when
  \<open>start \<le> end - width \<le> len(input)\<close>.
\<close>

theorem lexer_inv_preserved:
  assumes "lexer_inv l"
  shows "(\<exists>r l'. next_rune l = Some (r, l') \<and> lexer_inv l' \<and> lexer_inv (backup l')
            \<and> backup l' = l'\<lparr>end_pos := end_pos l\<rparr>)
       \<and> lexer_inv (backup l)
           = (start l \<le> end_pos l - width l \<and> end_pos l - width l \<le> int (length (input l)))
       \<and> (\<exists>r l'. peek l = Some (r, l') \<and> lexer_inv l')
       \<and> (\<exists>b l'. accept valid l = Some (b, l') \<and> lexer_inv l')
       \<and> (\<exists>l'. acceptRun valid l = Some l' \<and> lexer_inv l')
       \<and> (\<exists>b l'. acceptWord w l = Some (b, l') \<and> lexer_inv l')
       \<and> (\<exists>l'. emit t l = Some l' \<and> lexer_inv l')
       \<and> lexer_inv (emitValue t v l) \<and> lexer_inv (ignore l) \<and> lexer_inv (emitEOF l)"
proof -
  from next_rune_inv [OF assms] obtain r l1 where nx: "next_rune l = Some (r, l1)"
    and inv: "lexer_inv l1" "lexer_inv (backup l1)" by blast
  from next_rune_Some [OF nx] have "backup l1 = l1\<lparr>end_pos := end_pos l\<rparr>"
    by (simp add: backup_def)
  with nx inv
  have 1: "\<exists>r l'. next_rune l = Some (r, l') \<and> lexer_inv l' \<and> lexer_inv (backup l')
            \<and> backup l' = l'\<lparr>end_pos := end_pos l\<rparr>"
    by blast
  have 0: "lexer_inv (backup l)
           = (start l \<le> end_pos l - width l \<and> end_pos l - width l \<le> int (length (input l)))"
    using assms by (auto simp: lexer_inv_def backup_def)
  have 2: "\<exists>r l'. peek l = Some (r, l') \<and> lexer_inv l'"
    using nx inv by (simp add: peek_def)
  have 3: "\<exists>b l'. accept valid l = Some (b, l') \<and> lexer_inv l'"
    using nx inv by (cases "ContainsRune valid r") (auto simp: accept_def)
  have 4: "\<exists>l'. acceptRun valid l = Some l' \<and> lexer_inv l'"
    by (rule acceptRun_inv [OF assms])
  have 5: "\<exists>b l'. acceptWord w l = Some (b, l') \<and> lexer_inv l'"
    unfolding acceptWord_def using assms
    by (intro acceptWord_loop_inv) (simp_all add: lexer_inv_def)
  have 6: "\<exists>l'. emit t l = Some l' \<and> lexer_inv l'"
    using assms by (simp add: emit_def word_def emitValue_def lexer_inv_def)
  have 7: "lexer_inv (emitValue t v l)" "lexer_inv (ignore l)" "lexer_inv (emitEOF l)"
    using assms by (simp_all add: emitValue_def ignore_def emitEOF_def lexer_inv_def)
  from 0 1 2 3 4 5 6 7 show ?thesis by blast
qed


theorem lexer_inv_preserved_witness:
  "lexer_inv \<lparr>input = ''ab'', tokens = [], start = 0, end_pos = 1, width = 1, err = None\<rparr>
   \<and> lexer_inv (backup \<lparr>input = ''ab'', tokens = [], start = 0, end_pos = 1, width = 1, err = None\<rparr>)
   \<and> lexer_inv (emitEOF \<lparr>input = ''ab'', tokens = [], start = 0, end_pos = 1, width = 1, err = None\<rparr>)
   \<and> next_rune \<lparr>input = ''ab'', tokens = [], start = 0, end_pos = 1, width = 1, err = None\<rparr>
       = Some (98, \<lparr>input = ''ab'', tokens = [], start = 0, end_pos = 2, width = 1, err = None\<rparr>)
   \<and> lexer_inv \<lparr>input = ''ab'', tokens = [], start = 0, end_pos = 2, width = 1, err = None\<rparr>"
proof -
  let ?L = "\<lparr>input = ''ab'', tokens = [], start = 0, end_pos = 1, width = 1, err = None\<rparr>"
  have h: "lexer_inv ?L" by (simp add: lexer_inv_def)
  have nx: "next_rune ?L
       = Some (98, \<lparr>input = ''ab'', tokens = [], start = 0, end_pos = 2, width = 1, err = None\<rparr>)"
    by (simp add: next_rune_def DecodeRuneInString_ascii)
  from lexer_inv_preserved [OF h, of "[]" "[]" EOF "[]"] nx
  have "lexer_inv \<lparr>input = ''ab'', tokens = [], start = 0, end_pos = 2, width = 1, err = None\<rparr>"
    and "lexer_inv (backup ?L)" and "lexer_inv (emitEOF ?L)"
    by auto
  with h nx show ?thesis by simp
qed

text \<open>
  One \<open>backup\<close> for one \<open>next\<close> is not enough when the pending span is closed in between: on
  the input \<open>a\<close>, after \<open>next\<close> and \<open>ignore\<close> the invariant holds with \<open>start = end = 1\<close>, and
  the one \<open>backup\<close> leaves \<open>end = 0\<close> below \<open>start = 1\<close>.
\<close>

theorem backup_after_ignore_counterexample:
  "lexer_inv (new_lexer ''a'')
   \<and> next_rune (new_lexer ''a'')
       = Some (97, \<lparr>input = ''a'', tokens = [], start = 0, end_pos = 1, width = 1, err = None\<rparr>)
   \<and> ignore \<lparr>input = ''a'', tokens = [], start = 0, end_pos = 1, width = 1, err = None\<rparr>
       = \<lparr>input = ''a'', tokens = [], start = 1, end_pos = 1, width = 1, err = None\<rparr>
   \<and> lexer_inv \<lparr>input = ''a'', tokens = [], start = 1, end_pos = 1, width = 1, err = None\<rparr>
   \<and> backup \<lparr>input = ''a'', tokens = [], start = 1, end_pos = 1, width = 1, err = None\<rparr>
       = \<lparr>input = ''a'', tokens = [], start = 1, end_pos = 0, width = 1, err = None\<rparr>
   \<and> \<not> lexer_inv \<lparr>input = ''a'', tokens = [], start = 1, end_pos = 0, width = 1, err = None\<rparr>"
  by (simp add: lexer_inv_def new_lexer_def next_rune_def ignore_def backup_def
      DecodeRuneInString_ascii)

subsection \<open>Accepting a word\<close>

text \<open>
  The number of runes of a word that the runes to be read match, one by one from the first,
  before the first difference or the end of either.
\<close>

fun matched :: "rune list \<Rightarrow> rune list \<Rightarrow> nat" where
  "matched (a # as) (b # bs) = (if a = b then Suc (matched as bs) else 0)"
| "matched as bs = 0"

text \<open>The width recorded by the \<open>k\<close>-th read from now: that of the rune, or 0 at the end.\<close>

definition width_at :: "nat list \<Rightarrow> nat \<Rightarrow> int" where
  "width_at ws k = (if k < length ws then int (ws ! k) else 0)"

lemma same_frame_refl [simp]: "same_frame l l"
  by (simp add: same_frame_def)

lemma same_frame_trans: "same_frame l l1 \<Longrightarrow> same_frame l1 l' \<Longrightarrow> same_frame l l'"
  by (simp add: same_frame_def)

lemma pending_Nil: "upcoming l = [] \<Longrightarrow> pending l = []"
  by (simp add: upcoming_pending)

lemma acceptWord_loop_spec:
  assumes "0 \<le> end_pos l" and "\<And>c. c \<in> set ws \<Longrightarrow> c \<noteq> eof"
  shows "\<exists>b l'. acceptWord_loop pos ws l = Some (b, l') \<and> same_frame l l'
           \<and> b = prefix ws (upcoming l)
           \<and> (if b then upcoming l' = drop (length ws) (upcoming l)
                 \<and> end_pos l' = end_pos l
                      + int (sum_list (take (length ws) (widths (pending l))))
               else end_pos l' = pos
                 \<and> width l' = width_at (widths (pending l)) (matched ws (upcoming l)))"
  using assms
proof (induction ws arbitrary: l)
  case Nil
  then show ?case by auto
next
  case (Cons ch chs)
  show ?case
  proof (cases "upcoming l")
    case Nil
    from Cons.prems(2) have "ch \<noteq> eof" by simp
    with next_rune_at_end [OF Cons.prems(1) Nil] Nil pending_Nil [OF Nil] show ?thesis
      by (auto simp: same_frame_def width_at_def)
  next
    case (Cons r rs)
    from Cons.prems(1) Cons obtain l1 w ws' where st: "next_rune l = Some (r, l1)"
      "upcoming l1 = rs" "widths (pending l) = w # ws'" "widths (pending l1) = ws'"
      "width l1 = int w" "end_pos l1 = end_pos l + int w"
      "input l1 = input l" "start l1 = start l" "tokens l1 = tokens l" "err l1 = err l"
      by (rule next_rune_step)
    have fr: "same_frame l l1" using st by (simp add: same_frame_def)
    show ?thesis
    proof (cases "r = ch")
      case False
      with st Cons fr show ?thesis
        by (auto simp: same_frame_def width_at_def)
    next
      case True
      from st Cons.prems(1) have "0 \<le> end_pos l1" by simp
      moreover from Cons.prems(2) have "\<And>c. c \<in> set chs \<Longrightarrow> c \<noteq> eof" by simp
      ultimately obtain b l' where
        IH: "acceptWord_loop pos chs l1 = Some (b, l')" "same_frame l1 l'"
          "b = prefix chs (upcoming l1)"
          "if b then upcoming l' = drop (length chs) (upcoming l1)
                 \<and> end_pos l' = end_pos l1
                      + int (sum_list (take (length chs) (widths (pending l1))))
               else end_pos l' = pos
                 \<and> width l' = width_at (widths (pending l1)) (matched chs (upcoming l1))"
        using Cons.IH [of l1] by blast
      from True st IH(1) have 1: "acceptWord_loop pos (ch # chs) l = Some (b, l')" by simp
      from fr IH(2) have 2: "same_frame l l'" by (rule same_frame_trans)
      from IH(3) True st Cons have 3: "b = prefix (ch # chs) (upcoming l)" by simp
      have 4: "if b then upcoming l' = drop (length (ch # chs)) (upcoming l)
                 \<and> end_pos l' = end_pos l
                      + int (sum_list (take (length (ch # chs)) (widths (pending l))))
               else end_pos l' = pos
                 \<and> width l' = width_at (widths (pending l)) (matched (ch # chs) (upcoming l))"
        using IH(4) True st Cons by (auto simp: width_at_def)
      from 1 2 3 4 show ?thesis by blast
    qed
  qed
qed

lemma runes_ne_eof: "c \<in> set (runes s) \<Longrightarrow> c \<noteq> eof"
  using runes_nonneg [of c s] by (auto simp: eof_def)

lemma acceptWord_spec:
  assumes "0 \<le> end_pos l"
  shows "\<exists>b l'. acceptWord lit l = Some (b, l') \<and> same_frame l l'
           \<and> b = prefix (runes lit) (upcoming l)
           \<and> (if b then upcoming l' = drop (length (runes lit)) (upcoming l)
                 \<and> end_pos l' = end_pos l
                      + int (sum_list (take (length (runes lit)) (widths (pending l))))
               else end_pos l' = end_pos l
                 \<and> width l' = width_at (widths (pending l)) (matched (runes lit) (upcoming l)))"
proof -
  have ne: "\<And>c. c \<in> set (runes lit) \<Longrightarrow> c \<noteq> eof" by (rule runes_ne_eof)
  from acceptWord_loop_spec [where ws = "runes lit" and pos = "end_pos l" and l = l,
      OF assms ne]
  show ?thesis unfolding acceptWord_def .
qed

text \<open>
  A rune below 128 is decoded from one byte only: every encoding of two, three or four
  bytes, and \<open>RuneError\<close>, is 128 or more.
\<close>

lemma enc2_large: "194 \<le> s0 \<Longrightarrow> s0 < 224 \<Longrightarrow> 128 \<le> (s0 mod 32) * 64 + (x::nat)"
proof -
  assume "194 \<le> s0" "s0 < 224"
  then have "2 \<le> s0 mod 32" by presburger
  then have "128 \<le> (s0 mod 32) * 64" by simp
  then show ?thesis by simp
qed

lemma enc3_large:
  assumes "224 \<le> s0" "s0 < 240" "\<not> s1 < acceptLo s0" "\<not> acceptHi s0 < s1"
  shows "128 \<le> (s0 mod 16) * 4096 + (s1 mod 64) * 64 + (x::nat)"
proof (cases "s0 = 224")
  case True
  with assms have "160 \<le> s1" "s1 \<le> 191" by (simp_all add: acceptLo_def acceptHi_def)
  then have "32 \<le> s1 mod 64" by presburger
  then have "128 \<le> (s1 mod 64) * 64" by simp
  then show ?thesis by simp
next
  case False
  with assms have "1 \<le> s0 mod 16" by presburger
  then have "128 \<le> (s0 mod 16) * 4096" by simp
  then show ?thesis by simp
qed

lemma enc4_large:
  assumes "240 \<le> s0" "\<not> 244 < s0" "\<not> s1 < acceptLo s0" "\<not> acceptHi s0 < s1"
  shows "128 \<le> (s0 mod 8) * 262144 + (s1 mod 64) * 4096 + (x::nat)"
proof (cases "s0 = 240")
  case True
  with assms have "144 \<le> s1" "s1 \<le> 191" by (simp_all add: acceptLo_def acceptHi_def)
  then have "16 \<le> s1 mod 64" by presburger
  then have "128 \<le> (s1 mod 64) * 4096" by simp
  then show ?thesis by simp
next
  case False
  with assms have "1 \<le> s0 mod 8" by presburger
  then have "128 \<le> (s0 mod 8) * 262144" by simp
  then show ?thesis by simp
qed

lemma enc2_large_int:
  assumes "194 \<le> s0" "s0 < 224"
  shows "(128::int) \<le> int (s0 mod 32) * 64 + int x"
proof -
  from enc2_large [OF assms, of x] have "int 128 \<le> int ((s0 mod 32) * 64 + x)"
    by (simp only: of_nat_le_iff)
  then show ?thesis by simp
qed

lemma enc3_large_int:
  assumes "224 \<le> s0" "s0 < 240" "\<not> s1 < acceptLo s0" "\<not> acceptHi s0 < s1"
  shows "(128::int) \<le> int (s0 mod 16) * 4096 + int (s1 mod 64) * 64 + int x"
proof -
  from enc3_large [OF assms, of x]
  have "int 128 \<le> int ((s0 mod 16) * 4096 + (s1 mod 64) * 64 + x)"
    by (simp only: of_nat_le_iff)
  then show ?thesis by simp
qed

lemma enc4_large_int:
  assumes "240 \<le> s0" "\<not> 244 < s0" "\<not> s1 < acceptLo s0" "\<not> acceptHi s0 < s1"
  shows "(128::int) \<le> int (s0 mod 8) * 262144 + int (s1 mod 64) * 4096 + int x * 64 + int y"
proof -
  from enc4_large [OF assms, of "x * 64 + y"]
  have "int 128 \<le> int ((s0 mod 8) * 262144 + (s1 mod 64) * 4096 + (x * 64 + y))"
    by (simp only: of_nat_le_iff)
  then show ?thesis by simp
qed

lemma DecodeRuneInString_large:
  assumes "\<not> (of_char c :: nat) < 128"
  shows "128 \<le> fst (DecodeRuneInString (c # cs))"
proof -
  define s0 :: nat where "s0 = of_char c"
  define t :: "nat list" where "t = map of_char cs"
  have d: "DecodeRuneInString (c # cs) =
     (if s0 < 194 \<or> 244 < s0 then (RuneError, 1)
          else if s0 < 224 then
            (case t of
               s1 # _ \<Rightarrow>
                 if s1 < acceptLo s0 \<or> acceptHi s0 < s1 then (RuneError, 1)
                 else (int ((s0 mod 32) * 64 + s1 mod 64), 2)
             | _ \<Rightarrow> (RuneError, 1))
          else if s0 < 240 then
            (case t of
               s1 # s2 # _ \<Rightarrow>
                 if s1 < acceptLo s0 \<or> acceptHi s0 < s1 then (RuneError, 1)
                 else if \<not> contByte s2 then (RuneError, 1)
                 else (int ((s0 mod 16) * 4096 + (s1 mod 64) * 64 + s2 mod 64), 3)
             | _ \<Rightarrow> (RuneError, 1))
          else
            (case t of
               s1 # s2 # s3 # _ \<Rightarrow>
                 if s1 < acceptLo s0 \<or> acceptHi s0 < s1 then (RuneError, 1)
                 else if \<not> contByte s2 then (RuneError, 1)
                 else if \<not> contByte s3 then (RuneError, 1)
                 else (int ((s0 mod 8) * 262144 + (s1 mod 64) * 4096
                             + (s2 mod 64) * 64 + s3 mod 64), 4)
             | _ \<Rightarrow> (RuneError, 1)))"
    unfolding s0_def t_def DecodeRuneInString_def using assms by simp
  show ?thesis
  proof (cases "s0 < 194 \<or> 244 < s0")
    case True
    with d show ?thesis by (simp add: RuneError_def)
  next
    case nx: False
    show ?thesis
    proof (cases "s0 < 224")
      case True
      with nx d show ?thesis
        by (auto simp: RuneError_def split: list.splits intro: enc2_large_int)
    next
      case n2: False
      show ?thesis
      proof (cases "s0 < 240")
        case True
        with nx n2 d show ?thesis
          by (auto simp: RuneError_def split: list.splits intro: enc3_large_int)
      next
        case False
        with nx n2 d show ?thesis
          by (auto simp: RuneError_def split: list.splits intro: enc4_large_int)
      qed
    qed
  qed
qed

lemma DecodeRuneInString_small:
  assumes "fst (DecodeRuneInString (c # cs)) < 128"
  shows "DecodeRuneInString (c # cs) = (int (of_char c), 1)"
proof (cases "(of_char c :: nat) < 128")
  case True
  then show ?thesis by (rule DecodeRuneInString_ascii)
next
  case False
  from DecodeRuneInString_large [OF this, of cs] assms show ?thesis by simp
qed

lemma ascii_prefix_runes:
  "(\<And>c. c \<in> set lit \<Longrightarrow> (of_char c :: nat) < 128) \<Longrightarrow>
     prefix (runes lit) (runes s) \<longleftrightarrow> prefix lit s"
proof (induction lit arbitrary: s)
  case Nil
  show ?case by simp
next
  case (Cons c cs)
  have c: "(of_char c :: nat) < 128" using Cons.prems by simp
  have cs: "\<And>x. x \<in> set cs \<Longrightarrow> (of_char x :: nat) < 128" using Cons.prems by simp
  have rl: "runes (c # cs) = int (of_char c) # runes cs"
    using DecodeRuneInString_ascii [OF c, of cs] by simp
  show ?case
  proof (cases s)
    case Nil
    then show ?thesis by (simp add: rl)
  next
    case s: (Cons d ds)
    show ?thesis
    proof (cases "fst (DecodeRuneInString (d # ds)) = int (of_char c)")
      case True
      with c have "fst (DecodeRuneInString (d # ds)) < 128" by simp
      from DecodeRuneInString_small [OF this] True
      have d: "DecodeRuneInString (d # ds) = (int (of_char d), 1)" and eq: "d = c"
        by simp_all
      from d have "runes (d # ds) = int (of_char d) # runes ds" by simp
      with eq s rl Cons.IH [OF cs, of ds] show ?thesis by simp
    next
      case False
      then have "d \<noteq> c" using DecodeRuneInString_ascii [OF c, of ds] by auto
      with False s rl show ?thesis by simp
    qed
  qed
qed

lemma ascii_prefix_widths:
  "(\<And>c. c \<in> set lit \<Longrightarrow> (of_char c :: nat) < 128) \<Longrightarrow> prefix lit s \<Longrightarrow>
     take (length lit) (widths s) = replicate (length lit) 1"
proof (induction lit arbitrary: s)
  case Nil
  show ?case by simp
next
  case (Cons c cs)
  have c: "(of_char c :: nat) < 128" using Cons.prems by simp
  have cs: "\<And>x. x \<in> set cs \<Longrightarrow> (of_char x :: nat) < 128" using Cons.prems by simp
  from Cons.prems(2) obtain ds where s: "s = c # ds" and p: "prefix cs ds"
    by (cases s) auto
  from DecodeRuneInString_ascii [OF c, of ds] have "widths (c # ds) = 1 # widths ds" by simp
  with s Cons.IH [OF cs p] show ?case by simp
qed

lemma runes_ascii_length:
  "(\<And>c. c \<in> set s \<Longrightarrow> (of_char c :: nat) < 128) \<Longrightarrow> length (runes s) = length s"
  by (simp add: runes_ascii)

text \<open>
  C7. All or nothing. From every lexer whose offset \<open>end\<close> is not negative, \<open>acceptWord\<close>
  returns true exactly when the runes of the word are the next runes of the input; then
  the cursor has consumed these runes and no more, and \<open>end\<close> has advanced by their widths.
  Otherwise it returns false and \<open>end\<close> is what it was before the call. For a word of ASCII
  characters: it returns true exactly when the bytes at \<open>end\<close> are the word, and then \<open>end\<close>
  has advanced by the length of the word.
\<close>

theorem acceptWord_all_or_nothing:
  assumes "0 \<le> end_pos l"
  shows "\<exists>b l'. acceptWord lit l = Some (b, l') \<and> same_frame l l'
           \<and> b = prefix (runes lit) (upcoming l)
           \<and> (if b then upcoming l = runes lit @ upcoming l'
                 \<and> end_pos l' = end_pos l
                      + int (sum_list (take (length (runes lit)) (widths (pending l))))
               else end_pos l' = end_pos l)
           \<and> ((\<forall>c \<in> set lit. (of_char c :: nat) < 128) \<longrightarrow>
                 b = prefix lit (pending l)
                 \<and> (if b then end_pos l' = end_pos l + int (length lit)
                     else end_pos l' = end_pos l))"
proof -
  from acceptWord_spec [OF assms, of lit]
  obtain b l' where
    *: "acceptWord lit l = Some (b, l')" "same_frame l l'"
       "b = prefix (runes lit) (upcoming l)"
       "if b then upcoming l' = drop (length (runes lit)) (upcoming l)
                 \<and> end_pos l' = end_pos l
                      + int (sum_list (take (length (runes lit)) (widths (pending l))))
               else end_pos l' = end_pos l
                 \<and> width l' = width_at (widths (pending l)) (matched (runes lit) (upcoming l))"
    by (elim exE conjE) (rule that)
  have app: "upcoming l = runes lit @ upcoming l'" if b
  proof -
    from that *(3) obtain zs where zs: "upcoming l = runes lit @ zs"
      by (auto simp: prefix_def)
    with that *(4) show ?thesis by simp
  qed
  have 4: "if b then upcoming l = runes lit @ upcoming l'
                 \<and> end_pos l' = end_pos l
                      + int (sum_list (take (length (runes lit)) (widths (pending l))))
               else end_pos l' = end_pos l"
  proof (cases b)
    case True
    from True *(4) have "end_pos l' = end_pos l
                      + int (sum_list (take (length (runes lit)) (widths (pending l))))"
      by simp
    with app [OF True] True show ?thesis by simp
  next
    case False
    with *(4) show ?thesis by simp
  qed
  have 5: "b = prefix lit (pending l)
                 \<and> (if b then end_pos l' = end_pos l + int (length lit)
                     else end_pos l' = end_pos l)"
    if asc: "\<forall>c \<in> set lit. (of_char c :: nat) < 128"
  proof -
    from asc have a: "\<And>c. c \<in> set lit \<Longrightarrow> (of_char c :: nat) < 128" by simp
    from *(3) ascii_prefix_runes [where lit = lit and s = "pending l", OF a]
    have b: "b = prefix lit (pending l)" by (simp add: upcoming_pending)
    show ?thesis
    proof (cases b)
      case True
      with b have "take (length lit) (widths (pending l)) = replicate (length lit) 1"
        using ascii_prefix_widths [where lit = lit and s = "pending l", OF a] by simp
      with True *(4) runes_ascii_length [where s = lit, OF a]
      have "end_pos l' = end_pos l + int (length lit)"
        by (simp add: sum_list_replicate)
      with True b show ?thesis by simp
    next
      case False
      with *(4) b show ?thesis by simp
    qed
  qed
  have 6: "(\<forall>c \<in> set lit. (of_char c :: nat) < 128) \<longrightarrow>
                 b = prefix lit (pending l)
                 \<and> (if b then end_pos l' = end_pos l + int (length lit)
                     else end_pos l' = end_pos l)"
    by (rule impI) (rule 5)
  from *(1,2,3) 4 6 show ?thesis by (intro exI [of _ b] exI [of _ l'] conjI)
qed

lemma acceptWord_example_fail:
  "acceptWord ''not'' (new_lexer ''nil x'')
     = Some (False, \<lparr>input = ''nil x'', tokens = [], start = 0, end_pos = 0, width = 1,
                     err = None\<rparr>)"
  by code_simp

lemma acceptWord_example_match:
  "acceptWord ''nil'' (new_lexer ''nil x'')
     = Some (True, \<lparr>input = ''nil x'', tokens = [], start = 0, end_pos = 3, width = 1,
                    err = None\<rparr>)"
  by code_simp

theorem acceptWord_all_or_nothing_witness:
  "0 \<le> end_pos (new_lexer ''nil x'')
   \<and> acceptWord ''nil'' (new_lexer ''nil x'')
     = Some (True, \<lparr>input = ''nil x'', tokens = [], start = 0, end_pos = 3, width = 1,
                    err = None\<rparr>)
   \<and> prefix ''nil'' (pending (new_lexer ''nil x''))
   \<and> acceptWord ''not'' (new_lexer ''nil x'')
     = Some (False, \<lparr>input = ''nil x'', tokens = [], start = 0, end_pos = 0, width = 1,
                     err = None\<rparr>)
   \<and> \<not> prefix ''not'' (pending (new_lexer ''nil x''))"
proof -
  have h: "0 \<le> end_pos (new_lexer ''nil x'')" by (simp add: new_lexer_def)
  have a1: "\<forall>c \<in> set ''nil''. (of_char c :: nat) < 128" by simp
  have a2: "\<forall>c \<in> set ''not''. (of_char c :: nat) < 128" by simp
  from acceptWord_all_or_nothing [OF h, of "''nil''"] acceptWord_example_match a1
  have 1: "prefix ''nil'' (pending (new_lexer ''nil x''))" by auto
  from acceptWord_all_or_nothing [OF h, of "''not''"] acceptWord_example_fail a2
  have 2: "\<not> prefix ''not'' (pending (new_lexer ''nil x''))" by auto
  from h 1 2 acceptWord_example_fail acceptWord_example_match show ?thesis by simp
qed

text \<open>
  C10 (amended). When \<open>acceptWord\<close> returns false, \<open>end\<close> is restored and \<open>width\<close> is not: it
  is the width recorded by the read that ended the attempt. Where that read returned a rune
  of the input that differs from the word's, \<open>width\<close> is the width of that rune, at least 1,
  and a \<open>backup\<close> without a \<open>next\<close> in between moves \<open>end\<close> below the restored offset by it.
  Where that read met the end of the input, \<open>width\<close> is 0 and a \<open>backup\<close> leaves \<open>end\<close> at the
  restored offset.
\<close>

theorem acceptWord_stale_width:
  assumes "0 \<le> end_pos l" and "acceptWord lit l = Some (False, l')"
  shows "end_pos l' = end_pos l
       \<and> width l' = width_at (widths (pending l)) (matched (runes lit) (upcoming l))
       \<and> end_pos (backup l') = end_pos l - width l'
       \<and> (if matched (runes lit) (upcoming l) < length (upcoming l)
           then 1 \<le> width l' \<and> end_pos (backup l') < end_pos l
           else width l' = 0 \<and> end_pos (backup l') = end_pos l)"
proof -
  from acceptWord_spec [OF assms(1), of lit] assms(2)
  have e: "end_pos l' = end_pos l"
    and w: "width l' = width_at (widths (pending l)) (matched (runes lit) (upcoming l))"
    by auto
  from e have b: "end_pos (backup l') = end_pos l - width l'" by (simp add: backup_def)
  have len: "length (widths (pending l)) = length (upcoming l)"
    by (simp add: length_widths upcoming_pending)
  show ?thesis
  proof (cases "matched (runes lit) (upcoming l) < length (upcoming l)")
    case True
    with len have "widths (pending l) ! matched (runes lit) (upcoming l) \<in> set (widths (pending l))"
      by simp
    from widths_pos [OF this] True len w have "1 \<le> width l'" by (simp add: width_at_def)
    with True e w b show ?thesis by simp
  next
    case False
    with len w have "width l' = 0" by (simp add: width_at_def)
    with False e w b show ?thesis by simp
  qed
qed

lemma acceptWord_example_stale:
  "acceptWord ''ab'' (new_lexer [CHR ''a'', CHR 0xC3, CHR 0xA9])
     = Some (False, \<lparr>input = [CHR ''a'', CHR 0xC3, CHR 0xA9], tokens = [], start = 0,
                     end_pos = 0, width = 2, err = None\<rparr>)"
  by code_simp

theorem acceptWord_stale_width_witness:
  "0 \<le> end_pos (new_lexer [CHR ''a'', CHR 0xC3, CHR 0xA9])
   \<and> acceptWord ''ab'' (new_lexer [CHR ''a'', CHR 0xC3, CHR 0xA9])
     = Some (False, \<lparr>input = [CHR ''a'', CHR 0xC3, CHR 0xA9], tokens = [], start = 0,
                     end_pos = 0, width = 2, err = None\<rparr>)
   \<and> width_at (widths (pending (new_lexer [CHR ''a'', CHR 0xC3, CHR 0xA9])))
        (matched (runes ''ab'') (upcoming (new_lexer [CHR ''a'', CHR 0xC3, CHR 0xA9]))) = 2
   \<and> end_pos (backup \<lparr>input = [CHR ''a'', CHR 0xC3, CHR 0xA9], tokens = [], start = 0,
                        end_pos = 0, width = 2, err = None\<rparr>) = - 2"
proof -
  let ?L = "new_lexer [CHR ''a'', CHR 0xC3, CHR 0xA9]"
  have h: "0 \<le> end_pos ?L" by (simp add: new_lexer_def)
  from acceptWord_stale_width [OF h acceptWord_example_stale]
  have "width_at (widths (pending ?L)) (matched (runes ''ab'') (upcoming ?L)) = 2"
    and "end_pos (backup \<lparr>input = [CHR ''a'', CHR 0xC3, CHR 0xA9], tokens = [], start = 0,
                        end_pos = 0, width = 2, err = None\<rparr>) = - 2"
    by (simp_all add: new_lexer_def)
  with h acceptWord_example_stale show ?thesis by simp
qed

text \<open>
  On the input \<open>a\<close> the word \<open>ab\<close> fails after the rune \<open>a\<close>, of width 1, is consumed: the
  read that fails meets the end of the input and records the width 0, so \<open>width\<close> is not the
  width of the last character consumed, and a \<open>backup\<close> leaves \<open>end\<close> where it is.
\<close>

theorem acceptWord_stale_width_counterexample:
  "next_rune (new_lexer ''a'')
     = Some (97, \<lparr>input = ''a'', tokens = [], start = 0, end_pos = 1, width = 1, err = None\<rparr>)
   \<and> acceptWord ''ab'' (new_lexer ''a'')
     = Some (False, \<lparr>input = ''a'', tokens = [], start = 0, end_pos = 0, width = 0, err = None\<rparr>)
   \<and> backup \<lparr>input = ''a'', tokens = [], start = 0, end_pos = 0, width = 0, err = None\<rparr>
     = \<lparr>input = ''a'', tokens = [], start = 0, end_pos = 0, width = 0, err = None\<rparr>"
  by code_simp

subsection \<open>Digits\<close>

text \<open>
  \<open>lower\<close> sets the bit of value 32: it maps the capital letters \<open>A\<close> to \<open>F\<close> to \<open>a\<close> to \<open>f\<close>,
  and no other rune into that range.
\<close>

lemma lower_eq: "lower ch = ch + 32 * of_bool (\<not> bit ch 5)"
  using set_bit_eq [of 5 ch] by (simp add: lower_def set_bit_eq_or or.commute)

lemma bit5_iff: "bit (ch::int) 5 \<longleftrightarrow> odd (ch div 32)"
  by (simp add: bit_iff_odd)

lemma lower_letter:
  "97 \<le> lower ch \<and> lower ch \<le> 102 \<longleftrightarrow> (97 \<le> ch \<and> ch \<le> 102) \<or> (65 \<le> ch \<and> ch \<le> 70)"
proof (cases "bit ch 5")
  case True
  then have l: "lower ch = ch" by (simp add: lower_eq)
  from True have "odd (ch div 32)" by (simp add: bit5_iff)
  then have "\<not> (65 \<le> ch \<and> ch \<le> 70)" by presburger
  with l show ?thesis by auto
next
  case False
  then have l: "lower ch = ch + 32" by (simp add: lower_eq)
  from False have "even (ch div 32)" by (simp add: bit5_iff)
  then have "\<not> (97 \<le> ch \<and> ch \<le> 102)" by presburger
  with l show ?thesis by auto
qed

lemma lower_small: "97 \<le> ch \<Longrightarrow> ch \<le> 102 \<Longrightarrow> lower ch = ch"
proof -
  assume "97 \<le> ch" "ch \<le> 102"
  then have "odd (ch div 32)" by presburger
  then show ?thesis by (simp add: lower_eq bit5_iff)
qed

lemma lower_capital: "65 \<le> ch \<Longrightarrow> ch \<le> 70 \<Longrightarrow> lower ch = ch + 32"
proof -
  assume "65 \<le> ch" "ch \<le> 70"
  then have "even (ch div 32)" by presburger
  then show ?thesis by (simp add: lower_eq bit5_iff)
qed

text \<open>
  The valid digits of a base as the specification words them: the decimal digits and the
  letters \<open>a\<close> to \<open>f\<close>, in either case, whose value is below the base.
\<close>

definition validDigit :: "int \<Rightarrow> rune \<Rightarrow> bool" where
  "validDigit base ch =
     ((48 \<le> ch \<and> ch \<le> 57 \<and> ch - 48 < base)
      \<or> (97 \<le> ch \<and> ch \<le> 102 \<and> ch - 97 + 10 < base)
      \<or> (65 \<le> ch \<and> ch \<le> 70 \<and> ch - 65 + 10 < base))"

lemma digitVal_valid:
  assumes "base \<le> 16"
  shows "digitVal ch < base \<longleftrightarrow> validDigit base ch"
proof -
  consider (dec) "48 \<le> ch \<and> ch \<le> 57" | (small) "97 \<le> ch \<and> ch \<le> 102"
    | (cap) "65 \<le> ch \<and> ch \<le> 70"
    | (other) "\<not> (48 \<le> ch \<and> ch \<le> 57)" "\<not> (97 \<le> ch \<and> ch \<le> 102)" "\<not> (65 \<le> ch \<and> ch \<le> 70)"
    by blast
  then show ?thesis
  proof cases
    case dec
    then show ?thesis by (auto simp: digitVal_def validDigit_def)
  next
    case small
    with lower_small [of ch] show ?thesis by (auto simp: digitVal_def validDigit_def)
  next
    case cap
    with lower_capital [of ch] show ?thesis by (auto simp: digitVal_def validDigit_def)
  next
    case other
    with lower_letter [of ch] have "digitVal ch = 16" by (simp add: digitVal_def)
    with other assms show ?thesis by (auto simp: validDigit_def)
  qed
qed

lemma digitVal_eof: "digitVal eof = 16"
proof -
  have "\<not> (97 \<le> lower eof \<and> lower eof \<le> 102)"
    unfolding lower_letter by (simp add: eof_def)
  then show ?thesis by (simp add: digitVal_def eof_def)
qed

text \<open>The \<open>i\<close>-th rune read from a list of runes to be read: \<open>eof\<close> past its end.\<close>

definition rune_at :: "rune list \<Rightarrow> nat \<Rightarrow> rune" where
  "rune_at rs i = (if i < length rs then rs ! i else eof)"

lemma next_rune_stream:
  assumes "0 \<le> end_pos l"
  shows "\<exists>l1. next_rune l = Some (rune_at (upcoming l) 0, l1) \<and> same_frame l l1
           \<and> upcoming l1 = tl (upcoming l) \<and> 0 \<le> end_pos l1"
proof (cases "upcoming l")
  case Nil
  from next_rune_at_end [OF assms Nil] Nil assms show ?thesis
    by (auto simp: rune_at_def same_frame_def upcoming_def)
next
  case (Cons r rs)
  from assms Cons obtain l1 w ws where st: "next_rune l = Some (r, l1)" "upcoming l1 = rs"
    "end_pos l1 = end_pos l + int w"
    "input l1 = input l" "start l1 = start l" "tokens l1 = tokens l" "err l1 = err l"
    by (rule next_rune_step)
  with Cons assms show ?thesis by (auto simp: rune_at_def same_frame_def)
qed

lemma rune_at_Cons_Suc: "rune_at (c # rs) (Suc i) = rune_at rs i"
  by (simp add: rune_at_def)

lemma rune_at_head_tl: "rune_at (rune_at rs 0 # tl rs) i = rune_at rs i"
  by (cases rs; cases i) (simp_all add: rune_at_def)

lemma takeWhile_head_tl:
  assumes "\<not> P eof"
  shows "length (takeWhile P (rune_at rs 0 # tl rs)) = length (takeWhile P rs)"
  using assms by (cases rs) (simp_all add: rune_at_def)

lemma scanDigits_spec:
  "0 \<le> end_pos l \<Longrightarrow> base \<le> 16 \<Longrightarrow>
   \<exists>l1. scanDigits ch base n l
          = Some (rune_at (ch # upcoming l)
                    (min (nat n) (length (takeWhile (\<lambda>c. digitVal c < base) (ch # upcoming l)))),
                  if int (length (takeWhile (\<lambda>c. digitVal c < base) (ch # upcoming l))) < n
                  then error ''invalid char escape'' l1 else l1)
        \<and> same_frame l l1
        \<and> upcoming l1
            = drop (min (nat n) (length (takeWhile (\<lambda>c. digitVal c < base) (ch # upcoming l))))
                (upcoming l)
        \<and> 0 \<le> end_pos l1"
proof (induction ch base n l rule: scanDigits.induct)
  case (1 ch base n l)
  let ?P = "\<lambda>c. digitVal c < base"
  from "1.prems"(2) have neof: "\<not> ?P eof" by (simp add: digitVal_eof)
  show ?case
  proof (cases "n > 0 \<and> ?P ch")
    case False
    have k: "int (length (takeWhile ?P (ch # upcoming l))) < n \<longleftrightarrow> n > 0"
      using False by auto
    have j: "min (nat n) (length (takeWhile ?P (ch # upcoming l))) = 0"
      using False by auto
    have "scanDigits ch base n l
            = Some (ch, if n > 0 then error ''invalid char escape'' l else l)"
      using False by (subst scanDigits.simps) auto
    then show ?thesis
      unfolding k j using "1.prems"(1) by (intro exI [of _ l]) (simp add: rune_at_def)
  next
    case True
    from next_rune_stream [OF "1.prems"(1)] obtain l1 where
      nx: "next_rune l = Some (rune_at (upcoming l) 0, l1)" and fr: "same_frame l l1"
      and up: "upcoming l1 = tl (upcoming l)" and e1: "0 \<le> end_pos l1"
      by blast
    define c1 where "c1 = rune_at (upcoming l) 0"
    define k1 where "k1 = length (takeWhile ?P (c1 # upcoming l1))"
    from "1.IH" [OF True nx [folded c1_def] refl e1 "1.prems"(2)] obtain l2 where
      sd: "scanDigits c1 base (n - 1) l1
             = Some (rune_at (c1 # upcoming l1) (min (nat (n - 1)) k1),
                     if int k1 < n - 1 then error ''invalid char escape'' l2 else l2)"
      and fr2: "same_frame l1 l2"
      and up2: "upcoming l2 = drop (min (nat (n - 1)) k1) (upcoming l1)"
      and e2: "0 \<le> end_pos l2"
      unfolding k1_def by blast
    have k1': "k1 = length (takeWhile ?P (upcoming l))"
      unfolding k1_def c1_def up using takeWhile_head_tl [of ?P "upcoming l"] neof by simp
    have k: "length (takeWhile ?P (ch # upcoming l)) = Suc k1"
      using True k1' by simp
    have j: "min (nat n) (Suc k1) = Suc (min (nat (n - 1)) k1)"
      using True by (cases "nat n") (auto simp: nat_diff_distrib)
    have r: "rune_at (ch # upcoming l) (Suc (min (nat (n - 1)) k1))
               = rune_at (c1 # upcoming l1) (min (nat (n - 1)) k1)"
      unfolding rune_at_Cons_Suc c1_def up rune_at_head_tl ..
    have d: "drop (Suc (min (nat (n - 1)) k1)) (upcoming l) = upcoming l2"
      unfolding up2 up by (simp add: drop_Suc)
    have c: "int (Suc k1) < n \<longleftrightarrow> int k1 < n - 1" by auto
    have "scanDigits ch base n l = scanDigits c1 base (n - 1) l1"
      using True nx by (subst scanDigits.simps) (simp add: c1_def)
    with sd have "scanDigits ch base n l
             = Some (rune_at (ch # upcoming l) (Suc (min (nat (n - 1)) k1)),
                     if int (Suc k1) < n then error ''invalid char escape'' l2 else l2)"
      unfolding r c by simp
    moreover from fr fr2 have "same_frame l l2" by (rule same_frame_trans)
    ultimately show ?thesis
      unfolding k j using d e2 by (intro exI [of _ l2]) simp
  qed
qed

text \<open>
  C5. \<open>scanDigits\<close>, called with a base up to 16 (the escapes call it with 8 and 16) from a
  lexer whose offset \<open>end\<close> is not negative, returns; it reports the error
  \<open>invalid char escape\<close> (it ends with a call of \<open>error\<close>) exactly when fewer than \<open>n\<close> valid
  digits of the base are found from the rune in hand on, before a rune that is no digit or the
  end of the input. The digits it takes for valid are those of the specification: a letter
  \<open>a\<close> to \<open>f\<close> is a digit in either case. It reads one rune for each digit found, up to \<open>n\<close>,
  and returns the last rune read.
\<close>

theorem scanDigits_error_iff:
  assumes "0 \<le> end_pos l" and "base \<le> 16"
  shows "(\<exists>l1. scanDigits ch base n l
            = Some (rune_at (ch # upcoming l)
                      (min (nat n) (length (takeWhile (validDigit base) (ch # upcoming l)))),
                    if int (length (takeWhile (validDigit base) (ch # upcoming l))) < n
                    then error ''invalid char escape'' l1 else l1)
          \<and> same_frame l l1
          \<and> upcoming l1
              = drop (min (nat n) (length (takeWhile (validDigit base) (ch # upcoming l))))
                  (upcoming l)
          \<and> err (if int (length (takeWhile (validDigit base) (ch # upcoming l))) < n
                  then error ''invalid char escape'' l1 else l1)
              = (if int (length (takeWhile (validDigit base) (ch # upcoming l))) < n
                    \<and> err l = None
                 then Some \<lparr>ErrLocation = loc l1 (end_pos l1 - 1),
                             Message = ''invalid char escape''\<rparr>
                 else err l))
       \<and> (\<forall>c. (digitVal c < base) = validDigit base c)"
proof -
  have v: "(\<lambda>c. digitVal c < base) = validDigit base"
    using digitVal_valid [OF assms(2)] by auto
  from scanDigits_spec [OF assms, of ch n, unfolded v] obtain l1 where
    *: "scanDigits ch base n l
            = Some (rune_at (ch # upcoming l)
                      (min (nat n) (length (takeWhile (validDigit base) (ch # upcoming l)))),
                    if int (length (takeWhile (validDigit base) (ch # upcoming l))) < n
                    then error ''invalid char escape'' l1 else l1)"
       "same_frame l l1"
       "upcoming l1
              = drop (min (nat n) (length (takeWhile (validDigit base) (ch # upcoming l))))
                  (upcoming l)"
    by (elim exE conjE) (rule that)
  from *(2) have e: "err l1 = err l" by (simp add: same_frame_def)
  have "err (if int (length (takeWhile (validDigit base) (ch # upcoming l))) < n
                  then error ''invalid char escape'' l1 else l1)
              = (if int (length (takeWhile (validDigit base) (ch # upcoming l))) < n
                    \<and> err l = None
                 then Some \<lparr>ErrLocation = loc l1 (end_pos l1 - 1),
                             Message = ''invalid char escape''\<rparr>
                 else err l)"
    using e by (simp add: error_def)
  with * have "\<exists>l1. scanDigits ch base n l
            = Some (rune_at (ch # upcoming l)
                      (min (nat n) (length (takeWhile (validDigit base) (ch # upcoming l)))),
                    if int (length (takeWhile (validDigit base) (ch # upcoming l))) < n
                    then error ''invalid char escape'' l1 else l1)
          \<and> same_frame l l1
          \<and> upcoming l1
              = drop (min (nat n) (length (takeWhile (validDigit base) (ch # upcoming l))))
                  (upcoming l)
          \<and> err (if int (length (takeWhile (validDigit base) (ch # upcoming l))) < n
                  then error ''invalid char escape'' l1 else l1)
              = (if int (length (takeWhile (validDigit base) (ch # upcoming l))) < n
                    \<and> err l = None
                 then Some \<lparr>ErrLocation = loc l1 (end_pos l1 - 1),
                             Message = ''invalid char escape''\<rparr>
                 else err l)"
    by (intro exI [of _ l1] conjI)
  moreover have "\<forall>c. (digitVal c < base) = validDigit base c"
    using digitVal_valid [OF assms(2)] by simp
  ultimately show ?thesis by (rule conjI)
qed

lemma scanDigits_example_short:
  "scanDigits 52 16 2
     \<lparr>input = ''4g'', tokens = [], start = 0, end_pos = 1, width = 1, err = None\<rparr>
   = Some (103, \<lparr>input = ''4g'', tokens = [], start = 0, end_pos = 2, width = 1,
                 err = Some \<lparr>ErrLocation = \<lparr>Line = 1, Column = 1\<rparr>,
                              Message = ''invalid char escape''\<rparr>\<rparr>)"
  by code_simp

lemma scanDigits_example_full:
  "scanDigits 52 16 2
     \<lparr>input = ''4Fg'', tokens = [], start = 0, end_pos = 1, width = 1, err = None\<rparr>
   = Some (103, \<lparr>input = ''4Fg'', tokens = [], start = 0, end_pos = 3, width = 1,
                 err = None\<rparr>)"
  by code_simp

lemma digits_example_short:
  "length (takeWhile (validDigit 16)
     (52 # upcoming \<lparr>input = ''4g'', tokens = [], start = 0, end_pos = 1, width = 1,
                      err = None\<rparr>)) = 1"
  by (simp add: upcoming_def DecodeRuneInString_ascii validDigit_def)

lemma digits_example_full:
  "length (takeWhile (validDigit 16)
     (52 # upcoming \<lparr>input = ''4Fg'', tokens = [], start = 0, end_pos = 1, width = 1,
                      err = None\<rparr>)) = 2"
  by (simp add: upcoming_def DecodeRuneInString_ascii validDigit_def)

theorem scanDigits_error_iff_witness:
  "0 \<le> end_pos \<lparr>input = ''4g'', tokens = [], start = 0, end_pos = 1, width = 1, err = None\<rparr>
   \<and> (16::int) \<le> 16
   \<and> length (takeWhile (validDigit 16)
        (52 # upcoming \<lparr>input = ''4g'', tokens = [], start = 0, end_pos = 1, width = 1,
                         err = None\<rparr>)) = 1
   \<and> scanDigits 52 16 2
        \<lparr>input = ''4g'', tokens = [], start = 0, end_pos = 1, width = 1, err = None\<rparr>
      = Some (103, \<lparr>input = ''4g'', tokens = [], start = 0, end_pos = 2, width = 1,
                    err = Some \<lparr>ErrLocation = \<lparr>Line = 1, Column = 1\<rparr>,
                                 Message = ''invalid char escape''\<rparr>\<rparr>)
   \<and> length (takeWhile (validDigit 16)
        (52 # upcoming \<lparr>input = ''4Fg'', tokens = [], start = 0, end_pos = 1, width = 1,
                         err = None\<rparr>)) = 2
   \<and> scanDigits 52 16 2
        \<lparr>input = ''4Fg'', tokens = [], start = 0, end_pos = 1, width = 1, err = None\<rparr>
      = Some (103, \<lparr>input = ''4Fg'', tokens = [], start = 0, end_pos = 3, width = 1,
                    err = None\<rparr>)
   \<and> (digitVal 70 < 16) = validDigit 16 70
   \<and> validDigit 16 70 \<and> validDigit 16 102"
proof -
  let ?L = "\<lparr>input = ''4g'', tokens = [], start = 0, end_pos = 1, width = 1, err = None\<rparr>"
  have h1: "0 \<le> end_pos ?L" by simp
  have h2: "(16::int) \<le> 16" by simp
  from scanDigits_error_iff [OF h1 h2, of 52 2]
  have "(digitVal 70 < 16) = validDigit 16 70" by blast
  moreover have "validDigit 16 70" "validDigit 16 102" by (simp_all add: validDigit_def)
  ultimately show ?thesis
    using h1 h2 scanDigits_example_short scanDigits_example_full digits_example_short
      digits_example_full
    by simp
qed


subsection \<open>Escapes\<close>

text \<open>
  The table of escapes as the specification has it, on the runes after the backslash: the
  number of runes the escape reads (its marker, its digits, and the one rune after them that
  every escape but an unknown one reads), and whether it is an error. A single-letter escape
  reads its marker and one rune more; an octal escape reads up to three octal digits, the
  marker among them, and needs three; \<open>x\<close>, \<open>u\<close> and \<open>U\<close> read up to 2, 4 and 8 hexadecimal
  digits after the marker and need as many; any other marker is an error.
\<close>

definition hexDigits :: "nat \<Rightarrow> rune list \<Rightarrow> nat \<times> bool" where
  "hexDigits n rest =
     (2 + min n (length (takeWhile (validDigit 16) rest)),
      length (takeWhile (validDigit 16) rest) < n)"

definition escapeTable :: "rune \<Rightarrow> rune list \<Rightarrow> nat \<times> bool" where
  "escapeTable quote rs =
     (if rune_at rs 0 \<in> {97, 98, 102, 110, 114, 116, 118, 92, quote} then (2, False)
      else if 48 \<le> rune_at rs 0 \<and> rune_at rs 0 \<le> 55
        then (1 + min 3 (length (takeWhile (validDigit 8) rs)),
              length (takeWhile (validDigit 8) rs) < 3)
      else if rune_at rs 0 = 120 then hexDigits 2 (tl rs)
      else if rune_at rs 0 = 117 then hexDigits 4 (tl rs)
      else if rune_at rs 0 = 85 then hexDigits 8 (tl rs)
      else (1, True))"

lemma simpleEscape_iff:
  "simpleEscape quote m \<longleftrightarrow> m \<in> {97, 98, 102, 110, 114, 116, 118, 92, quote}"
  by (auto simp: simpleEscape_def)

lemma octalStart_iff: "octalStart m \<longleftrightarrow> 48 \<le> m \<and> m \<le> 55"
  by (auto simp: octalStart_def)

lemma rune_at_tl: "rune_at (tl rs) i = rune_at rs (Suc i)"
  by (cases rs) (simp_all add: rune_at_def)

lemma rune_at_0_Cons: "rune_at rs 0 \<noteq> eof \<Longrightarrow> rs = rune_at rs 0 # tl rs"
  by (cases rs) (simp_all add: rune_at_def)

lemma validDigit_eof: "\<not> validDigit base eof"
  by (simp add: validDigit_def eof_def)

lemma scanDigits_valid:
  assumes "0 \<le> end_pos l" and "base \<le> 16"
  shows "\<exists>l1. scanDigits ch base n l
          = Some (rune_at (ch # upcoming l)
                    (min (nat n) (length (takeWhile (validDigit base) (ch # upcoming l)))),
                  if int (length (takeWhile (validDigit base) (ch # upcoming l))) < n
                  then error ''invalid char escape'' l1 else l1)
        \<and> same_frame l l1
        \<and> upcoming l1
            = drop (min (nat n) (length (takeWhile (validDigit base) (ch # upcoming l))))
                (upcoming l)
        \<and> 0 \<le> end_pos l1"
proof -
  have v: "(\<lambda>c. digitVal c < base) = validDigit base"
    using digitVal_valid [OF assms(2)] by auto
  from scanDigits_spec [OF assms, of ch n] show ?thesis unfolding v .
qed

lemma scanEscape_table:
  assumes "0 \<le> end_pos l"
  shows "\<exists>l1. scanEscape quote l
            = Some (rune_at (upcoming l) (fst (escapeTable quote (upcoming l)) - 1),
                    if snd (escapeTable quote (upcoming l))
                    then error ''invalid char escape'' l1 else l1)
          \<and> same_frame l l1
          \<and> upcoming l1 = drop (fst (escapeTable quote (upcoming l))) (upcoming l)
          \<and> 0 \<le> end_pos l1"
proof -
  define rs where "rs = upcoming l"
  define m where "m = rune_at rs 0"
  from next_rune_stream [OF assms] obtain la where
    n1: "next_rune l = Some (m, la)" and f1: "same_frame l la"
    and u1: "upcoming la = tl rs" and e1: "0 \<le> end_pos la"
    unfolding rs_def m_def by blast
  from next_rune_stream [OF e1] obtain lb where
    n2: "next_rune la = Some (rune_at rs 1, lb)" and f2: "same_frame la lb"
    and u2: "upcoming lb = tl (tl rs)" and e2: "0 \<le> end_pos lb"
    unfolding u1 rune_at_tl by auto
  from f1 f2 have f12: "same_frame l lb" by (rule same_frame_trans)
  have d2: "tl (tl rs) = drop 2 rs" by (cases rs) (simp_all add: drop_Suc numeral_2_eq_2 drop_tl)
  have d1: "tl rs = drop 1 rs" by (simp add: drop_Suc)
  show ?thesis
  proof (cases "simpleEscape quote m")
    case True
    then have t: "escapeTable quote rs = (2, False)"
      by (simp add: escapeTable_def simpleEscape_iff m_def)
    from True n1 n2 have "scanEscape quote l = Some (rune_at rs 1, lb)"
      by (simp add: scanEscape_def)
    with f12 u2 e2 show ?thesis
      unfolding rs_def [symmetric] t d2 by (intro exI [of _ lb]) simp
  next
    case ns: False
    show ?thesis
    proof (cases "octalStart m")
      case True
      define k where "k = length (takeWhile (validDigit 8) rs)"
      from True have "m \<noteq> eof" by (auto simp: octalStart_def eof_def)
      then have rs: "rs = m # tl rs" unfolding m_def by (rule rune_at_0_Cons)
      from ns True have t: "escapeTable quote rs = (1 + min 3 k, k < 3)"
        by (simp add: escapeTable_def simpleEscape_iff octalStart_iff m_def k_def)
      from scanDigits_valid [OF e1, of 8 m 3] obtain l1 where
        sd: "scanDigits m 8 3 la
               = Some (rune_at (m # tl rs) (min 3 (length (takeWhile (validDigit 8) (m # tl rs)))),
                       if int (length (takeWhile (validDigit 8) (m # tl rs))) < 3
                       then error ''invalid char escape'' l1 else l1)"
        and fr: "same_frame la l1"
        and up: "upcoming l1 = drop (min 3 (length (takeWhile (validDigit 8) (m # tl rs)))) (tl rs)"
        and e: "0 \<le> end_pos l1"
        unfolding u1 by auto
      from sd rs have sd': "scanDigits m 8 3 la
               = Some (rune_at rs (min 3 k), if k < 3 then error ''invalid char escape'' l1 else l1)"
        unfolding k_def by simp
      from up rs have up': "upcoming l1 = drop (1 + min 3 k) rs"
        unfolding k_def by (simp add: drop_Suc)
      from ns True n1 sd' have "scanEscape quote l
               = Some (rune_at rs (min 3 k), if k < 3 then error ''invalid char escape'' l1 else l1)"
        by (simp add: scanEscape_def)
      moreover from f1 fr have "same_frame l l1" by (rule same_frame_trans)
      ultimately show ?thesis
        unfolding rs_def [symmetric] t using up' e by (intro exI [of _ l1]) simp
    next
      case no: False
      show ?thesis
      proof (cases "m = 120 \<or> m = 117 \<or> m = 85")
        case True
        define n :: nat where "n = (if m = 120 then 2 else if m = 117 then 4 else 8)"
        define k where "k = length (takeWhile (validDigit 16) (tl rs))"
        from True have "m \<noteq> eof" by (auto simp: eof_def)
        then have rs: "rs = m # tl rs" unfolding m_def by (rule rune_at_0_Cons)
        from ns no True have t: "escapeTable quote rs = (2 + min n k, k < n)"
          by (auto simp: escapeTable_def simpleEscape_iff octalStart_iff m_def k_def n_def
              hexDigits_def)
        have kk: "length (takeWhile (validDigit 16) (rune_at (tl rs) 0 # tl (tl rs))) = k"
          unfolding k_def using takeWhile_head_tl [of "validDigit 16" "tl rs"] validDigit_eof
          by simp
        from scanDigits_valid [OF e2, of 16 "rune_at rs 1" "int n"] obtain l1 where
          sd: "scanDigits (rune_at rs 1) 16 (int n) lb
                 = Some (rune_at (rune_at rs 1 # tl (tl rs)) (min n k),
                         if k < n then error ''invalid char escape'' l1 else l1)"
          and fr: "same_frame lb l1"
          and up: "upcoming l1 = drop (min n k) (tl (tl rs))"
          and e: "0 \<le> end_pos l1"
          unfolding u2 using kk [unfolded rune_at_tl] by auto
        have r: "rune_at (rune_at rs 1 # tl (tl rs)) (min n k) = rune_at rs (1 + min n k)"
          using rune_at_head_tl [of "tl rs" "min n k"] by (simp add: rune_at_tl)
        from up have up': "upcoming l1 = drop (2 + min n k) rs"
          unfolding d2 by (simp add: add.commute)
        from ns no True n1 n2 sd have "scanEscape quote l
                 = Some (rune_at rs (1 + min n k),
                         if k < n then error ''invalid char escape'' l1 else l1)"
          unfolding r by (auto simp: scanEscape_def n_def)
        moreover from f12 fr have "same_frame l l1" by (rule same_frame_trans)
        ultimately show ?thesis
          unfolding rs_def [symmetric] t using up' e by (intro exI [of _ l1]) simp
      next
        case False
        with ns no have t: "escapeTable quote rs = (1, True)"
          by (auto simp: escapeTable_def simpleEscape_iff octalStart_iff m_def)
        from ns no False n1 have "scanEscape quote l = Some (m, error ''invalid char escape'' la)"
          by (simp add: scanEscape_def)
        with f1 u1 e1 show ?thesis
          unfolding rs_def [symmetric] t d1 by (intro exI [of _ la]) (simp add: m_def)
      qed
    qed
  qed
qed

text \<open>
  C3. After a backslash, the escape scanner chooses by the marker, in this order: one of
  \<open>a b f n r t v\<close>, the backslash or the quote in use is a single-character escape; an
  octal digit starts an octal escape of up to three octal digits; \<open>x\<close>, \<open>u\<close> and \<open>U\<close> are
  followed by exactly 2, 4 and 8 hexadecimal digits; every other marker gives the error
  \<open>invalid char escape\<close>. For every lexer state with a non-negative cursor and every quote,
  \<open>scanEscape\<close> returns, reads exactly the runes the table \<open>escapeTable\<close> says, returns the
  last rune it read, and reports \<open>invalid char escape\<close> exactly when the table says so (too
  few digits, or an unknown marker); it changes neither the input, the start nor the tokens.
\<close>

theorem scanEscape_dispatch:
  assumes "0 \<le> end_pos l"
  shows "\<exists>l1. scanEscape quote l
            = Some (rune_at (upcoming l) (fst (escapeTable quote (upcoming l)) - 1),
                    if snd (escapeTable quote (upcoming l))
                    then error ''invalid char escape'' l1 else l1)
          \<and> same_frame l l1
          \<and> upcoming l1 = drop (fst (escapeTable quote (upcoming l))) (upcoming l)"
  using scanEscape_table [OF assms, of quote] by blast

lemma scanEscape_examples:
  "scanEscape 34 (new_lexer [CHR ''n'', CHR 0x22, CHR ''z''])
     = Some (34, \<lparr>input = [CHR ''n'', CHR 0x22, CHR ''z''], tokens = [], start = 0,
                  end_pos = 2, width = 1, err = None\<rparr>)"
  "scanEscape 34 (new_lexer [CHR ''1'', CHR ''0'', CHR ''1'', CHR 0x22, CHR ''z''])
     = Some (34, \<lparr>input = [CHR ''1'', CHR ''0'', CHR ''1'', CHR 0x22, CHR ''z''], tokens = [],
                  start = 0, end_pos = 4, width = 1, err = None\<rparr>)"
  "scanEscape 34 (new_lexer [CHR ''1'', CHR ''0'', CHR 0x22, CHR ''z''])
     = Some (34, \<lparr>input = [CHR ''1'', CHR ''0'', CHR 0x22, CHR ''z''], tokens = [],
                  start = 0, end_pos = 3, width = 1,
                  err = Some \<lparr>ErrLocation = \<lparr>Line = 1, Column = 2\<rparr>,
                               Message = ''invalid char escape''\<rparr>\<rparr>)"
  "scanEscape 34 (new_lexer [CHR ''x'', CHR ''4'', CHR ''1'', CHR 0x22, CHR ''z''])
     = Some (34, \<lparr>input = [CHR ''x'', CHR ''4'', CHR ''1'', CHR 0x22, CHR ''z''], tokens = [],
                  start = 0, end_pos = 4, width = 1, err = None\<rparr>)"
  "scanEscape 34 (new_lexer [CHR ''u'', CHR ''0'', CHR ''0'', CHR ''4'', CHR 0x22])
     = Some (34, \<lparr>input = [CHR ''u'', CHR ''0'', CHR ''0'', CHR ''4'', CHR 0x22], tokens = [],
                  start = 0, end_pos = 5, width = 1,
                  err = Some \<lparr>ErrLocation = \<lparr>Line = 1, Column = 4\<rparr>,
                               Message = ''invalid char escape''\<rparr>\<rparr>)"
  "scanEscape 34 (new_lexer [CHR ''q'', CHR 0x22])
     = Some (113, \<lparr>input = [CHR ''q'', CHR 0x22], tokens = [],
                  start = 0, end_pos = 1, width = 1,
                  err = Some \<lparr>ErrLocation = \<lparr>Line = 1, Column = 0\<rparr>,
                               Message = ''invalid char escape''\<rparr>\<rparr>)"
  by code_simp+

lemma escapeTable_examples:
  "escapeTable 34 [110, 34, 122] = (2, False)"
  "escapeTable 34 [49, 48, 49, 34, 122] = (4, False)"
  "escapeTable 34 [49, 48, 34, 122] = (3, True)"
  "escapeTable 34 [120, 52, 49, 34, 122] = (4, False)"
  "escapeTable 34 [117, 48, 48, 52, 34] = (5, True)"
  "escapeTable 34 [113, 34] = (1, True)"
  by (simp_all add: escapeTable_def hexDigits_def rune_at_def validDigit_def)

theorem scanEscape_dispatch_witness:
  "0 \<le> end_pos (new_lexer [CHR ''1'', CHR ''0'', CHR 0x22, CHR ''z''])
   \<and> (\<exists>l1. scanEscape 34 (new_lexer [CHR ''1'', CHR ''0'', CHR 0x22, CHR ''z''])
            = Some (rune_at (upcoming (new_lexer [CHR ''1'', CHR ''0'', CHR 0x22, CHR ''z'']))
                      (fst (escapeTable 34
                         (upcoming (new_lexer [CHR ''1'', CHR ''0'', CHR 0x22, CHR ''z'']))) - 1),
                    if snd (escapeTable 34
                         (upcoming (new_lexer [CHR ''1'', CHR ''0'', CHR 0x22, CHR ''z''])))
                    then error ''invalid char escape'' l1 else l1)
          \<and> same_frame (new_lexer [CHR ''1'', CHR ''0'', CHR 0x22, CHR ''z'']) l1
          \<and> upcoming l1
              = drop (fst (escapeTable 34
                         (upcoming (new_lexer [CHR ''1'', CHR ''0'', CHR 0x22, CHR ''z'']))))
                  (upcoming (new_lexer [CHR ''1'', CHR ''0'', CHR 0x22, CHR ''z''])))
   \<and> upcoming (new_lexer [CHR ''1'', CHR ''0'', CHR 0x22, CHR ''z'']) = [49, 48, 34, 122]
   \<and> escapeTable 34 [49, 48, 34, 122] = (3, True)
   \<and> scanEscape 34 (new_lexer [CHR ''1'', CHR ''0'', CHR 0x22, CHR ''z''])
     = Some (34, \<lparr>input = [CHR ''1'', CHR ''0'', CHR 0x22, CHR ''z''], tokens = [],
                  start = 0, end_pos = 3, width = 1,
                  err = Some \<lparr>ErrLocation = \<lparr>Line = 1, Column = 2\<rparr>,
                               Message = ''invalid char escape''\<rparr>\<rparr>)"
proof -
  let ?L = "new_lexer [CHR ''1'', CHR ''0'', CHR 0x22, CHR ''z'']"
  have h: "0 \<le> end_pos ?L" by (simp add: new_lexer_def)
  have u: "upcoming ?L = [49, 48, 34, 122]"
    by (simp add: upcoming_def new_lexer_def DecodeRuneInString_ascii)
  show ?thesis
    by (rule conjI [OF h conjI [OF scanEscape_dispatch [OF h, of 34]
          conjI [OF u conjI [OF escapeTable_examples(3) scanEscape_examples(3)]]]])
qed

end
